theory Spec2Isabelle
  imports Main "HOL-Library.Multiset" "HOL-Library.Sublist"
begin

section \<open>The quiz module (src/quiz-module.js): data model\<close>

text \<open>
  A JavaScript string is a sequence of code units and \<^verbatim>\<open>.length\<close> counts them; it is
  modelled by \<^typ>\<open>string\<close>, one \<^typ>\<open>char\<close> per code unit. Code units above 255 are
  outside the model.
  \<^verbatim>\<open>undefined\<close> is \<open>None\<close> of an option type wherever the source can produce it.
\<close>

subsection \<open>Raw word data handed to \<^verbatim>\<open>normalizeWords\<close>\<close>

text \<open>
  The values \<^verbatim>\<open>normalizeWords\<close> inspects: it tests truthiness, \<^verbatim>\<open>Array.isArray\<close>,
  \<^verbatim>\<open>typeof\<close> and reads properties. An object is the list of its own enumerable properties
  in the order of \<^verbatim>\<open>Object.keys\<close>. Numbers are integers here (no \<^verbatim>\<open>NaN\<close>).
\<close>

datatype jsval =
    JUndefined
  | JNull
  | JBool bool
  | JNum int
  | JStr string
  | JArr "jsval list"
  | JObj "(string \<times> jsval) list"

fun truthy :: "jsval \<Rightarrow> bool" where
  "truthy JUndefined = False"
| "truthy JNull = False"
| "truthy (JBool b) = b"
| "truthy (JNum n) = (n \<noteq> 0)"
| "truthy (JStr s) = (s \<noteq> [])"
| "truthy (JArr xs) = True"
| "truthy (JObj kvs) = True"

text \<open>\<^verbatim>\<open>v || ""\<close>\<close>

definition orEmpty :: "jsval \<Rightarrow> jsval" where
  "orEmpty v = (if truthy v then v else JStr [])"

text \<open>\<^verbatim>\<open>item[k]\<close> on an array: \<^verbatim>\<open>undefined\<close> past the end.\<close>

definition arrayAt :: "jsval list \<Rightarrow> nat \<Rightarrow> jsval" where
  "arrayAt xs k = (if k < length xs then xs ! k else JUndefined)"

text \<open>
  \<^verbatim>\<open>v.name\<close> for the names the source reads (\<^verbatim>\<open>word\<close>, \<^verbatim>\<open>meaning\<close>, \<^verbatim>\<open>hint\<close>,
  \<^verbatim>\<open>POS\<close>, and an object's own first key): an own property of an object, \<^verbatim>\<open>undefined\<close>
  on every other value. The source reads properties only of values it has tested to be
  non-null objects or truthy, so the read never throws.
\<close>

fun getProp :: "jsval \<Rightarrow> string \<Rightarrow> jsval" where
  "getProp (JObj kvs) name = (case map_of kvs name of None \<Rightarrow> JUndefined | Some v \<Rightarrow> v)"
| "getProp v name = JUndefined"

text \<open>\<^verbatim>\<open>Object.keys(item)[0]\<close>\<close>

fun firstKey :: "(string \<times> jsval) list \<Rightarrow> jsval" where
  "firstKey [] = JUndefined"
| "firstKey ((k, v) # kvs) = JStr k"

text \<open>\<^verbatim>\<open>item[key]\<close> where \<^verbatim>\<open>key = Object.keys(item)[0]\<close>\<close>

fun firstValue :: "(string \<times> jsval) list \<Rightarrow> jsval" where
  "firstValue [] = JUndefined"
| "firstValue ((k, v) # kvs) = getProp (JObj ((k, v) # kvs)) k"

text \<open>\<^verbatim>\<open>x || {}\<close>\<close>

definition orEmptyObj :: "jsval \<Rightarrow> jsval" where
  "orEmptyObj v = (if truthy v then v else JObj [])"

text \<open>The tail \<^verbatim>\<open>[key, v.meaning || "", v.hint || "", v.POS || ""]\<close> shared by both map shapes.\<close>

definition entryOfKey :: "jsval \<Rightarrow> jsval \<Rightarrow> jsval list" where
  "entryOfKey key v0 =
     (let v = orEmptyObj v0
      in [key, orEmpty (getProp v ''meaning''), orEmpty (getProp v ''hint''),
          orEmpty (getProp v ''POS'')])"

text \<open>One turn of the loop over an array input: the entries pushed for \<open>item\<close> (none or one).\<close>

fun normalizeItem :: "jsval \<Rightarrow> jsval list list" where
  "normalizeItem (JArr item) =
     [[orEmpty (arrayAt item 0), orEmpty (arrayAt item 1), orEmpty (arrayAt item 2),
       orEmpty (arrayAt item 3)]]"
| "normalizeItem (JObj item) =
     (case getProp (JObj item) ''word'' of
        JStr w \<Rightarrow>
          [[orEmpty (JStr w), orEmpty (getProp (JObj item) ''meaning''),
            orEmpty (getProp (JObj item) ''hint''), orEmpty (getProp (JObj item) ''POS'')]]
      | _ \<Rightarrow> [entryOfKey (firstKey item) (firstValue item)])"
| "normalizeItem (JStr s) = [[JStr s, JStr [], JStr [], JStr []]]"
| "normalizeItem v = []"

fun normalizeLoop :: "jsval list \<Rightarrow> jsval list list \<Rightarrow> jsval list list" where
  "normalizeLoop [] out = out"
| "normalizeLoop (item # items) out = normalizeLoop items (out @ normalizeItem item)"

fun normalizeMapLoop :: "(string \<times> jsval) list \<Rightarrow> (string \<times> jsval) list \<Rightarrow>
    jsval list list \<Rightarrow> jsval list list" where
  "normalizeMapLoop raw [] out = out"
| "normalizeMapLoop raw ((key, u) # rest) out =
     normalizeMapLoop raw rest (out @ [entryOfKey (JStr key) (getProp (JObj raw) key)])"

definition normalizeWords :: "jsval \<Rightarrow> jsval list list" where
  "normalizeWords raw =
     (if \<not> truthy raw then []
      else case raw of
        JArr items \<Rightarrow> normalizeLoop items []
      | JObj kvs \<Rightarrow> normalizeMapLoop kvs kvs []
      | _ \<Rightarrow> [])"

subsection \<open>Catalog, configuration and session state\<close>

text \<open>
  A normalized catalog entry \<^verbatim>\<open>[word, meaning, hint, POS]\<close> whose four fields are strings.
  \<^verbatim>\<open>w[k]\<close> is \<open>entryField w k\<close>: \<^verbatim>\<open>undefined\<close> from position 4 on.
\<close>

record wordEntry =
  headword :: string
  meaning :: string
  hint :: string
  partOfSpeech :: string

definition entryField :: "wordEntry \<Rightarrow> nat \<Rightarrow> string option" where
  "entryField w k =
     (if k = 0 then Some (headword w)
      else if k = 1 then Some (meaning w)
      else if k = 2 then Some (hint w)
      else if k = 3 then Some (partOfSpeech w)
      else None)"

record config =
  words :: "wordEntry list"
  mode :: nat
  selection :: int
  avoidSimilarDistractors :: bool

text \<open>\<^verbatim>\<open>cfg.words[i]\<close>\<close>

definition wordAt :: "config \<Rightarrow> nat \<Rightarrow> wordEntry option" where
  "wordAt cfg i = (if i < length (words cfg) then Some (words cfg ! i) else None)"

text \<open>\<^verbatim>\<open>(w[cfg.mode] || "") + ""\<close> for \<^verbatim>\<open>w = cfg.words[i] || []\<close>\<close>

definition answerText :: "config \<Rightarrow> wordEntry option \<Rightarrow> string" where
  "answerText cfg w =
     (case w of None \<Rightarrow> []
      | Some e \<Rightarrow> (case entryField e (mode cfg) of None \<Rightarrow> [] | Some s \<Rightarrow> s))"

text \<open>\<^verbatim>\<open>w[3] || ""\<close> for \<^verbatim>\<open>w = cfg.words[i] || []\<close>\<close>

definition posText :: "wordEntry option \<Rightarrow> string" where
  "posText w = (case w of None \<Rightarrow> [] | Some e \<Rightarrow> partOfSpeech e)"

text \<open>\<^verbatim>\<open>x + ""\<close> for a string or \<^verbatim>\<open>undefined\<close>\<close>

definition toStr :: "string option \<Rightarrow> string" where
  "toStr x = (case x of None \<Rightarrow> ''undefined'' | Some s \<Rightarrow> s)"

text \<open>
  \<^verbatim>\<open>toLowerCase\<close> on code units up to 255: the letters \<^verbatim>\<open>A\<close> to \<^verbatim>\<open>Z\<close> (65 to 90) and the
  Latin-1 capitals 192 to 222 except the multiplication sign 215 move up by 32; every other
  code unit stays, and the length is kept.
\<close>

definition lowerChar :: "char \<Rightarrow> char" where
  "lowerChar c =
     (let n = (of_char c :: nat)
      in if (65 \<le> n \<and> n \<le> 90) \<or> (192 \<le> n \<and> n \<le> 222 \<and> n \<noteq> 215) then char_of (n + 32)
         else c)"

definition toLowerCase :: "string \<Rightarrow> string" where
  "toLowerCase s = map lowerChar s"

text \<open>
  The two index objects \<^verbatim>\<open>wordIndexMap.byPOS\<close> and \<^verbatim>\<open>wordIndexMap.byLen\<close> (created with a
  null prototype, so they hold own keys only), the \<^verbatim>\<open>indexBuilt\<close> flag, \<^verbatim>\<open>usedWords\<close>
  (an entry is \<open>None\<close> when \<^verbatim>\<open>undefined\<close> was pushed), \<^verbatim>\<open>currentQuestion\<close> and
  \<^verbatim>\<open>correctAnswerIndex\<close>.
\<close>

record quizState =
  usedWords :: "nat option list"
  indexBuilt :: bool
  byPOS :: "string \<rightharpoonup> nat list"
  byLen :: "nat \<rightharpoonup> nat list"
  currentQuestion :: "(wordEntry \<times> nat) option"
  correctAnswerIndex :: int

definition initialState :: quizState where
  "initialState =
     \<lparr>usedWords = [], indexBuilt = False, byPOS = Map.empty, byLen = Map.empty,
      currentQuestion = None, correctAnswerIndex = - 1\<rparr>"

text \<open>The exceptions that \<^verbatim>\<open>createChoicesFor\<close> and the persistence functions can let through.\<close>

datatype error = TypeError | RangeError | SecurityError

subsection \<open>Random numbers\<close>

text \<open>
  \<^verbatim>\<open>Math.random()\<close> is a source of draws. \<^verbatim>\<open>Math.floor(Math.random() * max)\<close> is some
  integer in \<open>0 ..< max\<close> (and 0 when \<open>max = 0\<close>): a draw is a natural number \<open>r\<close> and the
  integer it yields is \<open>r mod max\<close>, so every outcome of the source is covered. The source is
  a list of the draws still to come; past its end every draw is 0.
\<close>

type_synonym rng = "nat list"

definition nextRandom :: "rng \<Rightarrow> nat \<times> rng" where
  "nextRandom rs = (case rs of [] \<Rightarrow> (0, []) | r # rest \<Rightarrow> (r, rest))"

definition getRandomInt :: "nat \<Rightarrow> rng \<Rightarrow> nat \<times> rng" where
  "getRandomInt mx rs =
     (case nextRandom rs of (r, rest) \<Rightarrow> (if mx = 0 then 0 else r mod mx, rest))"

text \<open>\<^verbatim>\<open>[s[i], s[j]] = [s[j], s[i]]\<close>\<close>

definition swap :: "'a list \<Rightarrow> nat \<Rightarrow> nat \<Rightarrow> 'a list" where
  "swap xs i j = xs[i := xs ! j, j := xs ! i]"

text \<open>The loop of \<^verbatim>\<open>shuffleArray\<close>, from \<open>i\<close> down to 1.\<close>

fun shuffleLoop :: "nat \<Rightarrow> 'a list \<Rightarrow> rng \<Rightarrow> 'a list \<times> rng" where
  "shuffleLoop 0 xs rs = (xs, rs)"
| "shuffleLoop (Suc i) xs rs =
     (case getRandomInt (Suc i + 1) rs of (j, rest) \<Rightarrow> shuffleLoop i (swap xs (Suc i) j) rest)"

definition shuffleArray :: "'a list \<Rightarrow> rng \<Rightarrow> 'a list \<times> rng" where
  "shuffleArray xs rs = shuffleLoop (length xs - 1) xs rs"

subsection \<open>\<^verbatim>\<open>longestCommonSubstringLength\<close>\<close>

text \<open>
  The table \<^verbatim>\<open>dp\<close> has \<open>m + 1\<close> rows of \<open>n + 1\<close> zeros; the state of the loops is the table
  and \<^verbatim>\<open>max\<close>. \<open>lcsCell\<close> is the body of the inner loop at \<open>(i, j)\<close>.
\<close>

definition lcsCell :: "'c list \<Rightarrow> 'c list \<Rightarrow> nat \<Rightarrow> nat \<Rightarrow> nat list list \<times> nat \<Rightarrow>
    nat list list \<times> nat" where
  "lcsCell a b i j s =
     (case s of (dp, mx) \<Rightarrow>
        if a ! (i - 1) = b ! (j - 1)
        then (let v = dp ! (i - 1) ! (j - 1) + 1;
                  dp' = dp[i := (dp ! i)[j := v]]
              in (dp', if v > mx then v else mx))
        else (dp, mx))"

definition lcsRow :: "'c list \<Rightarrow> 'c list \<Rightarrow> nat \<Rightarrow> nat list list \<times> nat \<Rightarrow>
    nat list list \<times> nat" where
  "lcsRow a b i s = fold (lcsCell a b i) [1 ..< length b + 1] s"

definition longestCommonSubstringLength :: "'c list \<Rightarrow> 'c list \<Rightarrow> nat" where
  "longestCommonSubstringLength a b =
     (let m = length a; n = length b;
          dp = replicate (m + 1) (replicate (n + 1) (0::nat))
      in snd (fold (lcsRow a b) [1 ..< m + 1] (dp, 0)))"

subsection \<open>The candidate index: \<^verbatim>\<open>buildIndex\<close>\<close>

text \<open>
  The body of the loop at index \<open>i\<close>: \<^verbatim>\<open>m[k] = m[k] || []; m[k].push(i)\<close> on \<^verbatim>\<open>byPOS\<close>
  when the entry's part of speech is truthy, and always on \<^verbatim>\<open>byLen\<close>.
\<close>

definition pushAt :: "('k \<rightharpoonup> nat list) \<Rightarrow> 'k \<Rightarrow> nat \<Rightarrow> ('k \<rightharpoonup> nat list)" where
  "pushAt m k i = m(k \<mapsto> (case m k of None \<Rightarrow> [] | Some arr \<Rightarrow> arr) @ [i])"

definition indexEntry :: "config \<Rightarrow> nat \<Rightarrow> quizState \<Rightarrow> quizState" where
  "indexEntry cfg i st =
     (let w = wordAt cfg i;
          POS = posText w;
          st1 = (if POS \<noteq> [] then st\<lparr>byPOS := pushAt (byPOS st) POS i\<rparr> else st);
          len = length (answerText cfg w)
      in st1\<lparr>byLen := pushAt (byLen st1) len i\<rparr>)"

definition buildIndex :: "config \<Rightarrow> quizState \<Rightarrow> quizState" where
  "buildIndex cfg st =
     (fold (indexEntry cfg) [0 ..< length (words cfg)]
        (st\<lparr>indexBuilt := False, byPOS := Map.empty, byLen := Map.empty\<rparr>))
     \<lparr>indexBuilt := True\<rparr>"

subsection \<open>\<^verbatim>\<open>getCandidateDistractorIndices\<close>\<close>

text \<open>
  \<^verbatim>\<open>candidates\<close> is a JavaScript \<^verbatim>\<open>Set\<close>: it keeps insertion order and ignores a value
  it already holds. It is the list of its elements in insertion order.
\<close>

definition setAdd :: "nat list \<Rightarrow> nat \<Rightarrow> nat list" where
  "setAdd c x = (if x \<in> set c then c else c @ [x])"

text \<open>\<^verbatim>\<open>for (const idx of arr) if (idx !== wordIndex) candidates.add(idx)\<close>\<close>

definition addOthers :: "nat \<Rightarrow> nat list \<Rightarrow> nat list \<Rightarrow> nat list" where
  "addOthers wordIndex arr c = fold (\<lambda>idx c. if idx \<noteq> wordIndex then setAdd c idx else c) arr c"

text \<open>The body of the loop over \<open>d = -2 .. 2\<close>.\<close>

definition lenStep :: "quizState \<Rightarrow> nat \<Rightarrow> nat \<Rightarrow> int \<Rightarrow> nat list \<Rightarrow> nat list" where
  "lenStep st wordIndex len d c =
     (let l = int len + d
      in if l < 0 then c
         else case byLen st (nat l) of None \<Rightarrow> c | Some arr \<Rightarrow> addOthers wordIndex arr c)"

definition getCandidateDistractorIndices ::
    "config \<Rightarrow> quizState \<Rightarrow> nat \<Rightarrow> rng \<Rightarrow> nat list \<times> quizState \<times> rng" where
  "getCandidateDistractorIndices cfg st wordIndex rs =
     (let st1 = (if \<not> indexBuilt st then buildIndex cfg st else st);
          w = wordAt cfg wordIndex;
          POS = posText w;
          c0 = (if POS \<noteq> [] then
                  (case byPOS st1 POS of None \<Rightarrow> [] | Some arr \<Rightarrow> addOthers wordIndex arr [])
                else []);
          len = length (answerText cfg w);
          c1 = fold (lenStep st1 wordIndex len) [- 2, - 1, 0, 1, 2] c0;
          c2 = (if length c1 = 0 then addOthers wordIndex [0 ..< length (words cfg)] c1 else c1)
      in if length c2 > 200
         then (case shuffleArray c2 rs of (sh, rest) \<Rightarrow> (take 200 sh, st1, rest))
         else (c2, st1, rs))"

subsection \<open>Question creation\<close>

definition resetUsedWordsIfNeeded :: "nat \<Rightarrow> quizState \<Rightarrow> quizState" where
  "resetUsedWordsIfNeeded totalWords st =
     (if length (usedWords st) = totalWords then st\<lparr>usedWords := []\<rparr> else st)"

text \<open>\<^verbatim>\<open>available[k]\<close> is \<^verbatim>\<open>undefined\<close> when \<open>available\<close> is empty.\<close>

definition chooseWordIndex :: "config \<Rightarrow> quizState \<Rightarrow> rng \<Rightarrow> nat option \<times> quizState \<times> rng" where
  "chooseWordIndex cfg st rs =
     (let st1 = resetUsedWordsIfNeeded (length (words cfg)) st;
          available = filter (\<lambda>i. Some i \<notin> set (usedWords st1)) [0 ..< length (words cfg)]
      in case getRandomInt (length available) rs of
           (k, rest) \<Rightarrow>
             (let chosen = (if k < length available then Some (available ! k) else None)
              in (chosen, st1\<lparr>usedWords := usedWords st1 @ [chosen]\<rparr>, rest)))"

record quizQuestion =
  choices :: "string option list"
  correctIndex :: int
  word :: wordEntry

text \<open>\<^verbatim>\<open>Array.prototype.indexOf\<close>\<close>

fun indexOf :: "'a list \<Rightarrow> 'a \<Rightarrow> int" where
  "indexOf [] x = - 1"
| "indexOf (y # ys) x =
     (if y = x then 0 else (let r = indexOf ys x in if r < 0 then - 1 else r + 1))"

text \<open>
  Candidate words are objects of the catalog, compared by identity in
  \<^verbatim>\<open>shuffledDistractors.includes(cfg.words[idx])\<close>. The entries of \<^verbatim>\<open>cfg.words\<close> are
  distinct objects (\<^verbatim>\<open>normalizeWords\<close> creates each one), so a candidate is its catalog
  index; an index outside the catalog is the \<^verbatim>\<open>undefined\<close> that \<^verbatim>\<open>cfg.words[i]\<close> yields,
  and reading \<^verbatim>\<open>w[cfg.mode]\<close> from it throws a \<^verbatim>\<open>TypeError\<close>.
\<close>

text \<open>The predicate of the similarity filter: does the candidate stay?\<close>

definition keepCandidate :: "config \<Rightarrow> string \<Rightarrow> wordEntry \<Rightarrow> bool" where
  "keepCandidate cfg target w =
     (let candidate = toLowerCase (toStr (entryField w (mode cfg)));
          common = longestCommonSubstringLength target candidate
      in common < max 3 (length target div 2))"

fun filterSimilar :: "config \<Rightarrow> string \<Rightarrow> nat list \<Rightarrow> error + nat list" where
  "filterSimilar cfg target [] = Inr []"
| "filterSimilar cfg target (i # rest) =
     (case wordAt cfg i of
        None \<Rightarrow> Inl TypeError
      | Some w \<Rightarrow>
          (case filterSimilar cfg target rest of
             Inl e \<Rightarrow> Inl e
           | Inr kept \<Rightarrow> Inr (if keepCandidate cfg target w then i # kept else kept)))"

text \<open>
  \<^verbatim>\<open>for (let i = 0; i < cfg.selection - 1 && i < shuffledDistractors.length; i++)\<close>: the list
  argument is what is left of \<^verbatim>\<open>shuffledDistractors\<close> from position \<open>i\<close> on.
\<close>

fun collectWrong :: "config \<Rightarrow> int \<Rightarrow> nat list \<Rightarrow> string option list \<Rightarrow>
    error + string option list" where
  "collectWrong cfg i [] wrongAnswers = Inr wrongAnswers"
| "collectWrong cfg i (d # rest) wrongAnswers =
     (if i < selection cfg - 1 then
        (case wordAt cfg d of
           None \<Rightarrow> Inl TypeError
         | Some w \<Rightarrow> collectWrong cfg (i + 1) rest (wrongAnswers @ [entryField w (mode cfg)]))
      else Inr wrongAnswers)"

text \<open>
  \<^verbatim>\<open>for (let i = 0; i < fallback.length && wrongAnswers.length < cfg.selection - 1; i++)\<close>;
  the entries of \<open>fallback\<close> come from \<^verbatim>\<open>cfg.words.filter\<close>, so they are catalog entries.
\<close>

fun topUp :: "config \<Rightarrow> wordEntry list \<Rightarrow> string option list \<Rightarrow> string option list" where
  "topUp cfg [] wrongAnswers = wrongAnswers"
| "topUp cfg (w # rest) wrongAnswers =
     (if int (length wrongAnswers) < selection cfg - 1
      then topUp cfg rest (wrongAnswers @ [entryField w (mode cfg)])
      else wrongAnswers)"

text \<open>\<^verbatim>\<open>cfg.words.filter((_, idx) => idx !== wordIndex)\<close>, as indices.\<close>

definition otherIndices :: "config \<Rightarrow> nat \<Rightarrow> nat list" where
  "otherIndices cfg wordIndex = filter (\<lambda>idx. idx \<noteq> wordIndex) [0 ..< length (words cfg)]"

text \<open>
  \<^verbatim>\<open>createChoicesFor\<close>. Nothing inside the \<^verbatim>\<open>try\<close> block can throw, so its \<^verbatim>\<open>catch\<close>
  branch is never taken. A thrown \<^verbatim>\<open>TypeError\<close> is the result \<open>Inl TypeError\<close>.
\<close>

definition createChoicesFor ::
    "config \<Rightarrow> quizState \<Rightarrow> nat option \<Rightarrow> rng \<Rightarrow> error + (quizQuestion \<times> quizState \<times> rng)" where
  "createChoicesFor cfg st wordIndex rs =
     (case wordIndex of
        None \<Rightarrow> Inl TypeError
      | Some t \<Rightarrow>
     (case wordAt cfg t of
        None \<Rightarrow> Inl TypeError
      | Some wd \<Rightarrow>
     (let correctAnswer = entryField wd (mode cfg)
      in case getCandidateDistractorIndices cfg st t rs of
        (candIdx, st1, rs1) \<Rightarrow>
     (let cand0 = (if length candIdx = 0 then otherIndices cfg t else candIdx)
      in case (if avoidSimilarDistractors cfg
               then filterSimilar cfg (toLowerCase (toStr correctAnswer)) cand0
               else Inr cand0) of
        Inl e \<Rightarrow> Inl e
      | Inr cand1 \<Rightarrow>
     (case shuffleArray cand1 rs1 of
        (shuffledDistractors, rs2) \<Rightarrow>
     (case collectWrong cfg 0 shuffledDistractors [] of
        Inl e \<Rightarrow> Inl e
      | Inr wrong0 \<Rightarrow>
     (let wrong1 =
            (if int (length wrong0) < selection cfg - 1
             then topUp cfg
                    (map (\<lambda>idx. words cfg ! idx)
                       (filter (\<lambda>idx. idx \<noteq> t \<and> idx \<notin> set shuffledDistractors)
                          [0 ..< length (words cfg)]))
                    wrong0
             else wrong0)
      in case shuffleArray (correctAnswer # wrong1) rs2 of
        (chs, rs3) \<Rightarrow>
          Inr (\<lparr>choices = chs, correctIndex = indexOf chs correctAnswer, word = wd\<rparr>,
               st1, rs3))))))))"

text \<open>
  \<^verbatim>\<open>changeQuestion\<close> without its writes to the page: choose a word, create its choices,
  record \<^verbatim>\<open>currentQuestion\<close> and \<^verbatim>\<open>correctAnswerIndex\<close>.
\<close>

definition changeQuestion ::
    "config \<Rightarrow> quizState \<Rightarrow> rng \<Rightarrow> error + (quizQuestion \<times> quizState \<times> rng)" where
  "changeQuestion cfg st rs =
     (case chooseWordIndex cfg st rs of
        (wordIndex, st1, rs1) \<Rightarrow>
          (case createChoicesFor cfg st1 wordIndex rs1 of
             Inl e \<Rightarrow> Inl e
           | Inr (q, st2, rs2) \<Rightarrow>
               Inr (q,
                    st2\<lparr>currentQuestion := map_option (\<lambda>i. (word q, i)) wordIndex,
                        correctAnswerIndex := correctIndex q\<rparr>,
                    rs2)))"

text \<open>\<open>k\<close> consecutive calls of \<^verbatim>\<open>chooseWordIndex\<close>, with the indices they return in order.\<close>

fun chooseMany :: "config \<Rightarrow> nat \<Rightarrow> quizState \<Rightarrow> rng \<Rightarrow> nat option list \<times> quizState \<times> rng" where
  "chooseMany cfg 0 st rs = ([], st, rs)"
| "chooseMany cfg (Suc k) st rs =
     (case chooseWordIndex cfg st rs of
        (c, st1, rs1) \<Rightarrow>
          (case chooseMany cfg k st1 rs1 of (cs, st2, rs2) \<Rightarrow> (c # cs, st2, rs2)))"

subsection \<open>Persistence: \<^verbatim>\<open>loadStats\<close>, \<^verbatim>\<open>saveStats\<close>, \<^verbatim>\<open>updateStatsWithSession\<close>\<close>

record resultItem =
  question :: string
  correctAnswer :: string
  hintText :: string
  answer :: string
  correct :: bool
  hintUsed :: bool

record session =
  ts :: int
  score :: int
  questionCount :: int

text \<open>
  What \<^verbatim>\<open>JSON.parse\<close> returns is any JSON value, and \<^verbatim>\<open>updateStatsWithSession\<close> reads
  and writes properties of it without checking its shape. The stored value is modelled by
  what the function does with it, one constructor for each class of values on which the
  code behaves in one way.

  The property \<^verbatim>\<open>sessions\<close> is falsy (absent, \<^verbatim>\<open>null\<close>, \<^verbatim>\<open>false\<close>, \<^verbatim>\<open>0\<close>, \<^verbatim>\<open>""\<close>) and
  replaced by \<^verbatim>\<open>[]\<close>; or an array, whose elements (session records or anything else) the
  module never reads; or another truthy value, on which \<^verbatim>\<open>.push\<close> is not a function.
\<close>

datatype sessionEntry = SessionRecord session | OtherEntry

datatype sessionsV = NoSessions | Sessions "sessionEntry list" | NotAnArray

text \<open>
  The value of a counter property \<^verbatim>\<open>attempts\<close>, \<^verbatim>\<open>correct\<close> or \<^verbatim>\<open>hintUsed\<close>, as
  \<^verbatim>\<open>+= 1\<close> sees it: an integer; an object whose conversion to a primitive throws (its own
  \<^verbatim>\<open>toString\<close> and \<^verbatim>\<open>valueOf\<close> are not functions); or a value that is not followed
  (absent, \<^verbatim>\<open>null\<close>, a string, a fraction, ...): its sum with 1 is some primitive, which
  is not followed either.
\<close>

datatype fieldV = FNum int | FOther | FThrows

record counter =
  attempts :: fieldV
  correctN :: fieldV
  hintUsedN :: fieldV

text \<open>
  What reading \<^verbatim>\<open>stats.perWord[key]\<close> finds, and what writing there does:
  \<^item> \<open>Missing\<close>: a falsy value, and \<^verbatim>\<open>perWord\<close> takes the assignment of a new counter;
  \<^item> \<open>Rejects e\<close>: a falsy value, and the assignment throws \<open>e\<close> (\<^verbatim>\<open>perWord\<close> is a number,
    a string or \<^verbatim>\<open>true\<close>: a \<^verbatim>\<open>TypeError\<close> in strict code; \<^verbatim>\<open>perWord\<close> is an empty array and
    the key is \<^verbatim>\<open>length\<close>: a \<^verbatim>\<open>RangeError\<close>);
  \<^item> \<open>Counter c\<close>: an own property that is an object or an array, with the counter
    properties \<open>c\<close>;
  \<^item> \<open>PrimitiveValue\<close>: a truthy number, string or \<^verbatim>\<open>true\<close>: assigning a property of it
    throws a \<^verbatim>\<open>TypeError\<close> in strict code;
  \<^item> \<open>Builtin\<close>: a function or object that the prototype chain supplies
    (\<^verbatim>\<open>constructor\<close>, \<^verbatim>\<open>toString\<close>, \<^verbatim>\<open>__proto__\<close>, ...): the increments become properties
    of that built-in object and \<^verbatim>\<open>perWord\<close> gets no property.
\<close>

datatype slot = Missing | Rejects error | Counter counter | PrimitiveValue | Builtin

text \<open>
  The property \<^verbatim>\<open>perWord\<close> is falsy and replaced by \<^verbatim>\<open>{}\<close>, or it is a truthy value, given
  by what each key finds in it.
\<close>

datatype perWordV = NoPerWord | PerWord "string \<Rightarrow> slot"

text \<open>
  The property \<^verbatim>\<open>highScore\<close> is falsy but not the number 0 (absent, \<^verbatim>\<open>null\<close>, \<^verbatim>\<open>false\<close>,
  \<^verbatim>\<open>""\<close>); or an integer; or another truthy value \<open>v\<close>, given by the outcome of
  \<^verbatim>\<open>correct > v\<close> for each \<open>correct\<close> (JavaScript converts \<open>v\<close> to a number, which may throw).
\<close>

datatype highScoreV = NoHighScore | HighScore int | OtherHighScore "int \<Rightarrow> error + bool"

text \<open>
  A stats object: an object or an array (an array from \<^verbatim>\<open>JSON.parse\<close> has none of the three
  properties), as its three properties.
\<close>

record stats =
  sessions :: sessionsV
  perWord :: perWordV
  highScore :: highScoreV

text \<open>The own property names of \<^verbatim>\<open>Object.prototype\<close>, which every plain object inherits.\<close>

definition objectPrototypeKeys :: "string list" where
  "objectPrototypeKeys =
     [''constructor'', ''__defineGetter__'', ''__defineSetter__'', ''hasOwnProperty'',
      ''__lookupGetter__'', ''__lookupSetter__'', ''isPrototypeOf'', ''propertyIsEnumerable'',
      ''toString'', ''valueOf'', ''__proto__'', ''toLocaleString'']"

text \<open>The object \<^verbatim>\<open>{}\<close>.\<close>

definition emptyObject :: "string \<Rightarrow> slot" where
  "emptyObject key = (if key \<in> set objectPrototypeKeys then Builtin else Missing)"

text \<open>\<^verbatim>\<open>{ sessions: [], perWord: {}, highScore: 0 }\<close>\<close>

definition emptyStats :: stats where
  "emptyStats = \<lparr>sessions = Sessions [], perWord = PerWord emptyObject, highScore = HighScore 0\<rparr>"

text \<open>
  What \<^verbatim>\<open>JSON.parse\<close> returns: a stats object, or \<^verbatim>\<open>null\<close>, a number, a string or a
  boolean. What the store holds under \<^verbatim>\<open>STORAGE_KEY\<close>: the empty string; a text
  \<^verbatim>\<open>JSON.parse\<close> rejects with a \<^verbatim>\<open>SyntaxError\<close>; a text it parses to the given value; or
  the text \<^verbatim>\<open>JSON.stringify\<close> made of a stats value in \<^verbatim>\<open>saveStats\<close>.
\<close>

datatype parsed = NonObject | StatsObject stats

datatype rawItem = EmptyText | Corrupt | Json parsed | Written stats

text \<open>
  The guard \<^verbatim>\<open>typeof window === "undefined" || !window.localStorage\<close> stands before the
  \<^verbatim>\<open>try\<close> blocks of \<^verbatim>\<open>loadStats\<close> and \<^verbatim>\<open>saveStats\<close>: there is no window or the property
  is falsy; or reading the property throws (a \<^verbatim>\<open>SecurityError\<close> when the page may not use
  storage); or the store is there.
\<close>

datatype access = NoStorage | AccessThrows | HasStorage

text \<open>
  The browser as the three functions meet it: the outcome of the guard, which of the store's
  three operations throw, the item stored under \<^verbatim>\<open>STORAGE_KEY\<close> (\<open>None\<close>: \<^verbatim>\<open>getItem\<close>
  returns \<^verbatim>\<open>null\<close>), and what \<^verbatim>\<open>JSON.parse\<close> returns for the text that
  \<^verbatim>\<open>JSON.stringify\<close> makes of a stats value.
\<close>

record browser =
  storageAccess :: access
  getThrows :: bool
  setThrows :: bool
  removeThrows :: bool
  item :: "rawItem option"
  reparse :: "stats \<Rightarrow> parsed"

text \<open>\<^verbatim>\<open>try { window.localStorage.removeItem(STORAGE_KEY); } catch (e2) {}\<close>\<close>

definition removeItemQuietly :: "browser \<Rightarrow> browser" where
  "removeItemQuietly env = (if removeThrows env then env else env\<lparr>item := None\<rparr>)"

definition loadStats :: "browser \<Rightarrow> (error + parsed) \<times> browser" where
  "loadStats env =
     (case storageAccess env of
        NoStorage \<Rightarrow> (Inr (StatsObject emptyStats), env)
      | AccessThrows \<Rightarrow> (Inl SecurityError, env)
      | HasStorage \<Rightarrow>
          (if getThrows env then (Inr (StatsObject emptyStats), removeItemQuietly env)
           else case item env of
                  None \<Rightarrow> (Inr (StatsObject emptyStats), env)
                | Some EmptyText \<Rightarrow> (Inr (StatsObject emptyStats), env)
                | Some Corrupt \<Rightarrow> (Inr (StatsObject emptyStats), removeItemQuietly env)
                | Some (Json v) \<Rightarrow> (Inr v, env)
                | Some (Written s) \<Rightarrow> (Inr (reparse env s), env)))"

definition saveStats :: "browser \<Rightarrow> stats \<Rightarrow> error + browser" where
  "saveStats env s =
     (case storageAccess env of
        NoStorage \<Rightarrow> Inr env
      | AccessThrows \<Rightarrow> Inl SecurityError
      | HasStorage \<Rightarrow>
          (if setThrows env then Inr env else Inr (env\<lparr>item := Some (Written s)\<rparr>)))"

text \<open>\<^verbatim>\<open>r.correctAnswer || r.question || "<unknown>"\<close>\<close>

definition resultKey :: "resultItem \<Rightarrow> string" where
  "resultKey r =
     (if correctAnswer r \<noteq> [] then correctAnswer r
      else if question r \<noteq> [] then question r
      else ''<unknown>'')"

text \<open>\<^verbatim>\<open>x += 1\<close> on a counter property.\<close>

definition plusOne :: "fieldV \<Rightarrow> error + fieldV" where
  "plusOne v =
     (case v of FNum n \<Rightarrow> Inr (FNum (n + 1)) | FOther \<Rightarrow> Inr FOther | FThrows \<Rightarrow> Inl TypeError)"

text \<open>
  \<^verbatim>\<open>if (!stats.perWord[key]) stats.perWord[key] = { attempts: 0, correct: 0, hintUsed: 0 }\<close>:
  what \<^verbatim>\<open>stats.perWord[key]\<close> is afterwards.
\<close>

definition ensureCounter :: "slot \<Rightarrow> error + slot" where
  "ensureCounter s =
     (case s of
        Missing \<Rightarrow> Inr (Counter \<lparr>attempts = FNum 0, correctN = FNum 0, hintUsedN = FNum 0\<rparr>)
      | Rejects e \<Rightarrow> Inl e
      | _ \<Rightarrow> Inr s)"

text \<open>The three conditional increments on a counter object, in the order of the source.\<close>

definition bumpCounter :: "resultItem \<Rightarrow> counter \<Rightarrow> error + counter" where
  "bumpCounter r c =
     (case plusOne (attempts c) of
        Inl e \<Rightarrow> Inl e
      | Inr a \<Rightarrow>
     (case (if correct r then plusOne (correctN c) else Inr (correctN c)) of
        Inl e \<Rightarrow> Inl e
      | Inr b \<Rightarrow>
     (case (if hintText r \<noteq> [] \<and> length (hintText r) > 0 \<and> hintUsed r
            then plusOne (hintUsedN c) else Inr (hintUsedN c)) of
        Inl e \<Rightarrow> Inl e
      | Inr h \<Rightarrow> Inr \<lparr>attempts = a, correctN = b, hintUsedN = h\<rparr>)))"

text \<open>The body of the loop over \<open>results\<close>.\<close>

definition perWordStep :: "resultItem \<Rightarrow> (string \<Rightarrow> slot) \<Rightarrow> error + (string \<Rightarrow> slot)" where
  "perWordStep r pw =
     (let key = resultKey r
      in case ensureCounter (pw key) of
           Inl e \<Rightarrow> Inl e
         | Inr (Counter c) \<Rightarrow>
             (case bumpCounter r c of
                Inl e \<Rightarrow> Inl e
              | Inr c' \<Rightarrow> Inr (pw(key := Counter c')))
         | Inr PrimitiveValue \<Rightarrow> Inl TypeError
         | Inr s \<Rightarrow> Inr pw)"

fun perWordLoop :: "resultItem list \<Rightarrow> (string \<Rightarrow> slot) \<Rightarrow> error + (string \<Rightarrow> slot)" where
  "perWordLoop [] pw = Inr pw"
| "perWordLoop (r # rest) pw =
     (case perWordStep r pw of Inl e \<Rightarrow> Inl e | Inr pw' \<Rightarrow> perWordLoop rest pw')"

text \<open>\<^verbatim>\<open>stats.sessions = stats.sessions || []; ...; stats.sessions.push(session)\<close>\<close>

definition pushSession :: "sessionsV \<Rightarrow> session \<Rightarrow> error + sessionEntry list" where
  "pushSession v sn =
     (case v of
        NoSessions \<Rightarrow> Inr [SessionRecord sn]
      | Sessions xs \<Rightarrow> Inr (xs @ [SessionRecord sn])
      | NotAnArray \<Rightarrow> Inl TypeError)"

text \<open>\<^verbatim>\<open>if (!stats.highScore || correct > stats.highScore) stats.highScore = correct\<close>\<close>

definition raiseHighScore :: "highScoreV \<Rightarrow> int \<Rightarrow> error + highScoreV" where
  "raiseHighScore v c =
     (case v of
        NoHighScore \<Rightarrow> Inr (HighScore c)
      | HighScore h \<Rightarrow> Inr (if h = 0 \<or> c > h then HighScore c else HighScore h)
      | OtherHighScore f \<Rightarrow>
          (case f c of
             Inl e \<Rightarrow> Inl e
           | Inr b \<Rightarrow> Inr (if b then HighScore c else OtherHighScore f)))"

text \<open>
  \<^verbatim>\<open>updateStatsWithSession\<close>; \<open>now\<close> is the value of \<^verbatim>\<open>Date.now()\<close>. The module is an
  ECMAScript module, hence strict code: reading \<^verbatim>\<open>stats.sessions\<close> from \<^verbatim>\<open>null\<close>, or
  assigning it on a number, string or boolean, throws a \<^verbatim>\<open>TypeError\<close>. An exception ends
  the function: the result is \<open>Inl\<close> of it.
\<close>

definition updateStatsWithSession ::
    "browser \<Rightarrow> int \<Rightarrow> resultItem list \<Rightarrow> int \<Rightarrow> (error + stats) \<times> browser" where
  "updateStatsWithSession env now results qc =
     (case loadStats env of
        (Inl e, env1) \<Rightarrow> (Inl e, env1)
      | (Inr NonObject, env1) \<Rightarrow> (Inl TypeError, env1)
      | (Inr (StatsObject st), env1) \<Rightarrow>
          (let c = int (length (filter correct results));
               sn = \<lparr>ts = now, score = c, questionCount = qc\<rparr>;
               pw0 = (case perWord st of NoPerWord \<Rightarrow> emptyObject | PerWord f \<Rightarrow> f)
           in case pushSession (sessions st) sn of
                Inl e \<Rightarrow> (Inl e, env1)
              | Inr ss \<Rightarrow>
             (case raiseHighScore (highScore st) c of
                Inl e \<Rightarrow> (Inl e, env1)
              | Inr hs \<Rightarrow>
             (case perWordLoop results pw0 of
                Inl e \<Rightarrow> (Inl e, env1)
              | Inr pw \<Rightarrow>
             (let st' = \<lparr>sessions = Sessions ss, perWord = PerWord pw, highScore = hs\<rparr>
              in case saveStats env1 st' of
                   Inl e \<Rightarrow> (Inl e, env1)
                 | Inr env2 \<Rightarrow> (Inr st', env2))))))"

text \<open>
  The part of \<^verbatim>\<open>showResults\<close> that persists:
  \<^verbatim>\<open>try { stats = updateStatsWithSession(results, cfg.questionCount); } catch (e) { stats = null; }\<close>
\<close>

definition showResultsStats ::
    "browser \<Rightarrow> int \<Rightarrow> resultItem list \<Rightarrow> int \<Rightarrow> stats option \<times> browser" where
  "showResultsStats env now results qc =
     (case updateStatsWithSession env now results qc of
        (Inl e, env1) \<Rightarrow> (None, env1)
      | (Inr s, env1) \<Rightarrow> (Some s, env1))"

subsection \<open>Notions used in the statements\<close>

text \<open>
  The length of the answer text of catalog entry \<open>i\<close> and its part of speech, as
  \<^verbatim>\<open>buildIndex\<close> and \<^verbatim>\<open>getCandidateDistractorIndices\<close> compute them; the answer of
  entry \<open>i\<close> as \<^verbatim>\<open>createChoicesFor\<close> reads it.
\<close>

definition answerLength :: "config \<Rightarrow> nat \<Rightarrow> nat" where
  "answerLength cfg i = length (answerText cfg (wordAt cfg i))"

definition posAt :: "config \<Rightarrow> nat \<Rightarrow> string" where
  "posAt cfg i = posText (wordAt cfg i)"

definition answerAt :: "config \<Rightarrow> nat \<Rightarrow> string option" where
  "answerAt cfg i = entryField (words cfg ! i) (mode cfg)"

text \<open>
  The candidate pool in the words of the specification: the other catalog indices that
  share the target's part of speech (an empty part of speech is none) or whose answer
  length is within 2 of the target's; every other catalog index when there is none.
\<close>

definition neighbourPool :: "config \<Rightarrow> nat \<Rightarrow> nat set" where
  "neighbourPool cfg t =
     {j. j < length (words cfg) \<and> j \<noteq> t \<and>
         ((posAt cfg t \<noteq> [] \<and> posAt cfg j = posAt cfg t) \<or>
          \<bar>int (answerLength cfg j) - int (answerLength cfg t)\<bar> \<le> 2)}"

definition candidatePool :: "config \<Rightarrow> nat \<Rightarrow> nat set" where
  "candidatePool cfg t =
     (if neighbourPool cfg t = {} then {j. j < length (words cfg) \<and> j \<noteq> t}
      else neighbourPool cfg t)"

text \<open>
  The length of the longest common contiguous substring, in the words of the
  specification.
\<close>

definition lcsSpec :: "'c list \<Rightarrow> 'c list \<Rightarrow> nat" where
  "lcsSpec a b = Max {length s | s. sublist s a \<and> sublist s b}"

text \<open>
  For the proof that the table of \<^verbatim>\<open>longestCommonSubstringLength\<close> computes it: the
  length of the longest common suffix of the first \<open>i\<close> elements of \<open>a\<close> and the first \<open>j\<close>
  of \<open>b\<close>, and the state of the loops just before cell \<open>(i, j)\<close> is visited.
\<close>

fun commonSuffix :: "'c list \<Rightarrow> 'c list \<Rightarrow> nat \<Rightarrow> nat \<Rightarrow> nat" where
  "commonSuffix a b 0 j = 0"
| "commonSuffix a b (Suc i) 0 = 0"
| "commonSuffix a b (Suc i) (Suc j) = (if a ! i = b ! j then Suc (commonSuffix a b i j) else 0)"

definition lcsInv :: "'c list \<Rightarrow> 'c list \<Rightarrow> nat \<Rightarrow> nat \<Rightarrow> nat list list \<times> nat \<Rightarrow> bool" where
  "lcsInv a b i j s =
     (case s of (dp, mx) \<Rightarrow>
        length dp = length a + 1 \<and>
        (\<forall>r \<le> length a. length (dp ! r) = length b + 1) \<and>
        (\<forall>r \<le> length a. \<forall>c \<le> length b.
           dp ! r ! c = (if r < i \<or> (r = i \<and> c < j) then commonSuffix a b r c else 0)) \<and>
        (\<forall>r \<le> length a. \<forall>c \<le> length b.
           (r < i \<or> (r = i \<and> c < j)) \<longrightarrow> commonSuffix a b r c \<le> mx) \<and>
        (\<exists>r \<le> length a. \<exists>c \<le> length b. commonSuffix a b r c = mx))"

text \<open>
  The value of \<^verbatim>\<open>candidateDistractors\<close> in \<^verbatim>\<open>createChoicesFor\<close> just before the similarity
  filter: the indexed candidates, or every other entry when there are none.
\<close>

definition candidateList :: "config \<Rightarrow> quizState \<Rightarrow> nat \<Rightarrow> rng \<Rightarrow> nat list" where
  "candidateList cfg st t rs =
     (if length (fst (getCandidateDistractorIndices cfg st t rs)) = 0 then otherIndices cfg t
      else fst (getCandidateDistractorIndices cfg st t rs))"

text \<open>
  The similarity test in the words of the specification: the answers of the target \<open>t\<close> and
  of the candidate \<open>i\<close>, compared without regard to case, share a contiguous substring of
  length at least \<open>max 3 (targetLength div 2)\<close>.
\<close>

definition tooSimilar :: "config \<Rightarrow> nat \<Rightarrow> nat \<Rightarrow> bool" where
  "tooSimilar cfg t i =
     (max 3 (length (toStr (answerAt cfg t)) div 2) \<le>
        lcsSpec (toLowerCase (toStr (answerAt cfg t))) (toLowerCase (toStr (answerAt cfg i))))"

text \<open>
  Stored values on which the loop over the results cannot throw: no key of \<^verbatim>\<open>perWord\<close>
  finds a truthy primitive, a place that rejects assignment, or a counter property whose
  conversion throws.
\<close>

definition slotAccepts :: "slot \<Rightarrow> bool" where
  "slotAccepts s =
     (case s of
        Missing \<Rightarrow> True
      | Builtin \<Rightarrow> True
      | Counter c \<Rightarrow> attempts c \<noteq> FThrows \<and> correctN c \<noteq> FThrows \<and> hintUsedN c \<noteq> FThrows
      | _ \<Rightarrow> False)"

definition perWordAccepts :: "perWordV \<Rightarrow> bool" where
  "perWordAccepts p = (case p of NoPerWord \<Rightarrow> True | PerWord f \<Rightarrow> (\<forall>key. slotAccepts (f key)))"

text \<open>The question a call returns, if it returns one.\<close>

definition questionOf :: "error + (quizQuestion \<times> quizState \<times> rng) \<Rightarrow> quizQuestion option" where
  "questionOf r = (case r of Inl e \<Rightarrow> None | Inr (q, st, rs) \<Rightarrow> Some q)"

subsection \<open>Invariants of the session state\<close>

text \<open>
  \<^verbatim>\<open>usedWords\<close> holds catalog indices, each at most once. It holds of the empty list, and
  \<^verbatim>\<open>chooseWordIndex\<close> keeps it (lemma \<open>chooseWordIndex_ok\<close>).
\<close>

definition usedWordsOk :: "config \<Rightarrow> quizState \<Rightarrow> bool" where
  "usedWordsOk cfg st =
     (distinct (usedWords st) \<and> (\<forall>u \<in> set (usedWords st). \<exists>i < length (words cfg). u = Some i))"

text \<open>
  The index, once built, is the index of the current catalog and mode: the specification
  makes rebuilding it a precondition of candidate lookup, and the module never rebuilds it
  after \<^verbatim>\<open>init\<close>. An index not built yet is built on first use.
\<close>

definition indexFresh :: "config \<Rightarrow> quizState \<Rightarrow> bool" where
  "indexFresh cfg st =
     (\<not> indexBuilt st \<or>
      (byPOS st = byPOS (buildIndex cfg st) \<and> byLen st = byLen (buildIndex cfg st)))"

subsection \<open>Concrete inputs\<close>

definition threeWords :: config where
  "threeWords =
     \<lparr>words =
        [\<lparr>headword = ''cat'', meaning = ''neko'', hint = [], partOfSpeech = ''noun''\<rparr>,
         \<lparr>headword = ''dog'', meaning = ''inu'', hint = [], partOfSpeech = ''noun''\<rparr>,
         \<lparr>headword = ''run'', meaning = ''hashiru'', hint = [], partOfSpeech = ''verb''\<rparr>],
      mode = 0, selection = 4, avoidSimilarDistractors = False\<rparr>"

definition scoreStats :: "int \<Rightarrow> stats" where
  "scoreStats h = \<lparr>sessions = Sessions [], perWord = PerWord emptyObject, highScore = HighScore h\<rparr>"

text \<open>
  A working store that holds the text of
  \<^verbatim>\<open>{"sessions":[],"perWord":{},"highScore":h}\<close>.
\<close>

definition scoreStore :: "int \<Rightarrow> browser" where
  "scoreStore h =
     \<lparr>storageAccess = HasStorage, getThrows = False, setThrows = False, removeThrows = False,
      item = Some (Json (StatsObject (scoreStats h))), reparse = StatsObject\<rparr>"

text \<open>A store all of whose operations throw.\<close>

definition brokenStore :: browser where
  "brokenStore =
     \<lparr>storageAccess = HasStorage, getThrows = True, setThrows = True, removeThrows = True,
      item = Some Corrupt, reparse = StatsObject\<rparr>"

text \<open>A page that may not use storage: reading \<^verbatim>\<open>window.localStorage\<close> throws.\<close>

definition blockedStore :: browser where
  "blockedStore =
     \<lparr>storageAccess = AccessThrows, getThrows = False, setThrows = False, removeThrows = False,
      item = None, reparse = StatsObject\<rparr>"

text \<open>A working store that holds the text \<^verbatim>\<open>null\<close>.\<close>

definition nullStore :: browser where
  "nullStore =
     \<lparr>storageAccess = HasStorage, getThrows = False, setThrows = False, removeThrows = False,
      item = Some (Json NonObject), reparse = StatsObject\<rparr>"

text \<open>A working store that holds the text \<^verbatim>\<open>{"sessions":5}\<close>.\<close>

definition wrongShapeStore :: browser where
  "wrongShapeStore =
     \<lparr>storageAccess = HasStorage, getThrows = False, setThrows = False, removeThrows = False,
      item = Some (Json (StatsObject
               \<lparr>sessions = NotAnArray, perWord = NoPerWord, highScore = NoHighScore\<rparr>)),
      reparse = StatsObject\<rparr>"

text \<open>Two entries with the same meaning, asked by meaning.\<close>

definition twinWords :: config where
  "twinWords =
     \<lparr>words =
        [\<lparr>headword = ''big'', meaning = ''large'', hint = [], partOfSpeech = ''adjective''\<rparr>,
         \<lparr>headword = ''huge'', meaning = ''large'', hint = [], partOfSpeech = ''adjective''\<rparr>],
      mode = 1, selection = 4, avoidSimilarDistractors = False\<rparr>"

text \<open>Two entries with the same headword, asked by headword.\<close>

definition setWords :: config where
  "setWords =
     \<lparr>words =
        [\<lparr>headword = ''set'', meaning = ''to put'', hint = [], partOfSpeech = ''verb''\<rparr>,
         \<lparr>headword = ''set'', meaning = ''a collection'', hint = [], partOfSpeech = ''noun''\<rparr>,
         \<lparr>headword = ''run'', meaning = ''to move fast'', hint = [], partOfSpeech = ''verb''\<rparr>],
      mode = 0, selection = 4, avoidSimilarDistractors = False\<rparr>"

text \<open>
  Catalogs with a near-copy of the answer \<^verbatim>\<open>insist\<close> in capitals, the similarity filter
  switched on: a small one, and one with three more words that are not similar.
\<close>

definition insistWords :: config where
  "insistWords =
     \<lparr>words =
        [\<lparr>headword = ''insist'', meaning = ''to demand'', hint = [], partOfSpeech = ''verb''\<rparr>,
         \<lparr>headword = ''INSISTING'', meaning = ''demanding'', hint = [], partOfSpeech = ''verb''\<rparr>,
         \<lparr>headword = ''demand'', meaning = ''to ask firmly'', hint = [], partOfSpeech = ''verb''\<rparr>],
      mode = 0, selection = 4, avoidSimilarDistractors = True\<rparr>"

definition fiveWords :: config where
  "fiveWords =
     \<lparr>words =
        [\<lparr>headword = ''insist'', meaning = ''to demand'', hint = [], partOfSpeech = ''verb''\<rparr>,
         \<lparr>headword = ''INSISTING'', meaning = ''demanding'', hint = [], partOfSpeech = ''verb''\<rparr>,
         \<lparr>headword = ''demand'', meaning = ''to ask firmly'', hint = [], partOfSpeech = ''verb''\<rparr>,
         \<lparr>headword = ''refuse'', meaning = ''to say no'', hint = [], partOfSpeech = ''verb''\<rparr>,
         \<lparr>headword = ''accept'', meaning = ''to say yes'', hint = [], partOfSpeech = ''verb''\<rparr>],
      mode = 0, selection = 4, avoidSimilarDistractors = True\<rparr>"

section \<open>Properties\<close>

subsection \<open>\<^verbatim>\<open>normalizeWords\<close>\<close>

lemma normalizeLoop_concat: "normalizeLoop items out = out @ concat (map normalizeItem items)"
  by (induction items arbitrary: out) auto

lemma normalizeItem_four: "e \<in> set (normalizeItem v) \<Longrightarrow> length e = 4"
  by (cases v) (auto simp: entryOfKey_def Let_def split: jsval.splits)

lemma normalizeWords_array_four: "e \<in> set (normalizeWords (JArr items)) \<Longrightarrow> length e = 4"
  by (auto simp: normalizeWords_def normalizeLoop_concat dest: normalizeItem_four)

text \<open>
  Claim C7. \<^verbatim>\<open>normalizeWords\<close> gives every entry four fields and keeps the input order
  (the two lemmas above), and it has no failing branch. But a missing field does not always
  become the empty string: for the empty object \<^verbatim>\<open>{}\<close> the key
  \<^verbatim>\<open>Object.keys(item)[0]\<close> is \<^verbatim>\<open>undefined\<close> and is pushed as it is, where every other
  field of every shape is defaulted with \<^verbatim>\<open>|| ""\<close>. On the input \<^verbatim>\<open>[{}]\<close> the result is
  one entry whose headword is \<^verbatim>\<open>undefined\<close>.
\<close>

theorem normalizeWords_empty_object:
  "normalizeWords (JArr [JObj []]) = [[JUndefined, JStr [], JStr [], JStr []]]"
  by (simp add: normalizeWords_def entryOfKey_def orEmptyObj_def orEmpty_def)

subsection \<open>Shuffling\<close>

lemma getRandomInt_less: "0 < mx \<Longrightarrow> fst (getRandomInt mx rs) < mx"
  by (simp add: getRandomInt_def nextRandom_def split: list.splits prod.splits)

lemma mset_swap_list: "i < length xs \<Longrightarrow> j < length xs \<Longrightarrow> mset (swap xs i j) = mset xs"
  unfolding swap_def by (simp add: mset_swap)

lemma length_swap: "length (swap xs i j) = length xs"
  by (simp add: swap_def)

lemma shuffleLoop_mset: "i < length xs \<or> i = 0 \<Longrightarrow> mset (fst (shuffleLoop i xs rs)) = mset xs"
proof (induction i arbitrary: xs rs)
  case 0
  then show ?case by simp
next
  case (Suc i)
  obtain j rest where g: "getRandomInt (Suc i + 1) rs = (j, rest)"
    by (cases "getRandomInt (Suc i + 1) rs")
  have "j < Suc i + 1" using getRandomInt_less[of "Suc i + 1" rs] g by simp
  with Suc.prems have jl: "j < length xs" and il: "Suc i < length xs" by auto
  have "mset (fst (shuffleLoop i (swap xs (Suc i) j) rest)) = mset (swap xs (Suc i) j)"
    using il by (intro Suc.IH) (simp add: length_swap)
  then show ?case using g jl il by (simp add: mset_swap_list)
qed

lemma shuffleArray_mset: "mset (fst (shuffleArray xs rs)) = mset xs"
  unfolding shuffleArray_def by (rule shuffleLoop_mset) (cases xs; simp)

lemma shuffleArray_set: "set (fst (shuffleArray xs rs)) = set xs"
  using shuffleArray_mset[of xs rs] by (metis set_mset_mset)

lemma shuffleArray_length: "length (fst (shuffleArray xs rs)) = length xs"
  using shuffleArray_mset[of xs rs] by (metis size_mset)

lemma shuffleArray_distinct: "distinct (fst (shuffleArray xs rs)) = distinct xs"
  using shuffleArray_mset[of xs rs] by (metis mset_eq_imp_distinct_iff)

subsection \<open>Word choice without replacement\<close>

lemma available_nonempty:
  assumes d: "distinct us" and r: "\<forall>u \<in> set us. \<exists>i < n. u = Some i" and l: "length us \<noteq> n"
  shows "filter (\<lambda>i. Some i \<notin> set us) [0 ..< n] \<noteq> []"
proof
  assume e: "filter (\<lambda>i. Some i \<notin> set us) [0 ..< n] = []"
  then have all: "\<forall>i < n. Some i \<in> set us" by (auto simp: filter_empty_conv)
  have "set us = Some ` {0 ..< n}" using all r by auto
  then have "card (set us) = n" by (simp add: card_image)
  then show False using d l by (simp add: distinct_card)
qed

lemma chooseWordIndex_step:
  assumes ok: "usedWordsOk cfg st"
    and ne: "length (usedWords st) \<noteq> length (words cfg) \<or> words cfg \<noteq> []"
  shows "\<exists>i < length (words cfg).
           fst (chooseWordIndex cfg st rs) = Some i \<and>
           Some i \<notin> set (usedWords (resetUsedWordsIfNeeded (length (words cfg)) st)) \<and>
           fst (snd (chooseWordIndex cfg st rs)) =
             (resetUsedWordsIfNeeded (length (words cfg)) st)
               \<lparr>usedWords := usedWords (resetUsedWordsIfNeeded (length (words cfg)) st) @ [Some i]\<rparr>"
proof -
  let ?n = "length (words cfg)"
  let ?st1 = "resetUsedWordsIfNeeded ?n st"
  let ?av = "filter (\<lambda>i. Some i \<notin> set (usedWords ?st1)) [0 ..< ?n]"
  have d1: "distinct (usedWords ?st1)" and r1: "\<forall>u \<in> set (usedWords ?st1). \<exists>i < ?n. u = Some i"
    using ok by (auto simp: usedWordsOk_def resetUsedWordsIfNeeded_def)
  have l1: "length (usedWords ?st1) \<noteq> ?n"
    using ne by (auto simp: resetUsedWordsIfNeeded_def)
  have av: "?av \<noteq> []" by (rule available_nonempty[OF d1 r1 l1])
  obtain k rest where g: "getRandomInt (length ?av) rs = (k, rest)"
    by (cases "getRandomInt (length ?av) rs")
  have kl: "k < length ?av" using getRandomInt_less[of "length ?av" rs] g av by simp
  then have "?av ! k \<in> set ?av" by (rule nth_mem)
  then have p: "?av ! k < ?n" "Some (?av ! k) \<notin> set (usedWords ?st1)" by auto
  show ?thesis
    apply (rule exI[of _ "?av ! k"])
    using p g kl by (simp add: chooseWordIndex_def Let_def)
qed

lemma chooseWordIndex_ok:
  assumes ok: "usedWordsOk cfg st"
    and ne: "length (usedWords st) \<noteq> length (words cfg) \<or> words cfg \<noteq> []"
  shows "usedWordsOk cfg (fst (snd (chooseWordIndex cfg st rs)))"
proof -
  from chooseWordIndex_step[OF ok ne, of rs] obtain i where
    i: "i < length (words cfg)"
       "Some i \<notin> set (usedWords (resetUsedWordsIfNeeded (length (words cfg)) st))"
    and s: "fst (snd (chooseWordIndex cfg st rs)) =
             (resetUsedWordsIfNeeded (length (words cfg)) st)
               \<lparr>usedWords := usedWords (resetUsedWordsIfNeeded (length (words cfg)) st) @ [Some i]\<rparr>"
    by blast
  have "usedWordsOk cfg (resetUsedWordsIfNeeded (length (words cfg)) st)"
    using ok by (auto simp: usedWordsOk_def resetUsedWordsIfNeeded_def)
  then show ?thesis using i unfolding s by (auto simp: usedWordsOk_def)
qed

lemma chooseMany_extend:
  "usedWordsOk cfg st \<Longrightarrow> length (usedWords st) + k \<le> length (words cfg) \<Longrightarrow>
   usedWords (fst (snd (chooseMany cfg k st rs))) = usedWords st @ fst (chooseMany cfg k st rs)
   \<and> usedWordsOk cfg (fst (snd (chooseMany cfg k st rs)))
   \<and> length (fst (chooseMany cfg k st rs)) = k"
proof (induction k arbitrary: st rs)
  case 0
  then show ?case by simp
next
  case (Suc k)
  let ?n = "length (words cfg)"
  obtain c st1 rs1 where c: "chooseWordIndex cfg st rs = (c, st1, rs1)"
    by (cases "chooseWordIndex cfg st rs") auto
  have ne: "length (usedWords st) \<noteq> ?n \<or> words cfg \<noteq> []" using Suc.prems by auto
  have nr: "resetUsedWordsIfNeeded ?n st = st"
    using Suc.prems by (auto simp: resetUsedWordsIfNeeded_def)
  from chooseWordIndex_step[OF Suc.prems(1) ne, of rs] c nr
  have u1: "usedWords st1 = usedWords st @ [c]" by auto
  have ok1: "usedWordsOk cfg st1" using chooseWordIndex_ok[OF Suc.prems(1) ne, of rs] c by simp
  have len1: "length (usedWords st1) + k \<le> ?n" using u1 Suc.prems by simp
  obtain cs st2 rs2 where m: "chooseMany cfg k st1 rs1 = (cs, st2, rs2)"
    by (cases "chooseMany cfg k st1 rs1") auto
  from Suc.IH[OF ok1 len1, of rs1] show ?case
    by (simp add: c u1 m)
qed

text \<open>
  Claim C4. Starting from an empty \<^verbatim>\<open>usedWords\<close>, as many consecutive calls of
  \<^verbatim>\<open>chooseWordIndex\<close> as the catalog has entries return every catalog index exactly once,
  whatever the random draws; \<^verbatim>\<open>usedWords\<close> then covers the catalog, and the next call
  clears it before choosing, so that afterwards it holds the newly chosen index alone.
\<close>

theorem chooseWordIndex_lap:
  assumes "usedWords st = []"
  shows "mset (fst (chooseMany cfg (length (words cfg)) st rs)) =
           mset (map Some [0 ..< length (words cfg)])
       \<and> usedWords (fst (snd (chooseWordIndex cfg
             (fst (snd (chooseMany cfg (length (words cfg)) st rs))) rs'))) =
           [fst (chooseWordIndex cfg (fst (snd (chooseMany cfg (length (words cfg)) st rs))) rs')]"
proof -
  let ?n = "length (words cfg)"
  let ?r = "chooseMany cfg ?n st rs"
  have ok: "usedWordsOk cfg st" using assms by (simp add: usedWordsOk_def)
  from chooseMany_extend[OF ok, of ?n rs] assms
  have u: "usedWords (fst (snd ?r)) = fst ?r" and ok': "usedWordsOk cfg (fst (snd ?r))"
    and l: "length (fst ?r) = ?n" by auto
  have d: "distinct (fst ?r)" and sub: "set (fst ?r) \<subseteq> Some ` {0 ..< ?n}"
    using ok' u by (auto simp: usedWordsOk_def)
  have "card (set (fst ?r)) = card (Some ` {0 ..< ?n})"
    using d l by (simp add: distinct_card card_image)
  then have "set (fst ?r) = Some ` {0 ..< ?n}"
    using sub by (intro card_subset_eq) auto
  then have "set (fst ?r) = set (map Some [0 ..< ?n])" by simp
  moreover have "distinct (map Some [0 ..< ?n])" by (simp add: distinct_map)
  ultimately have m: "mset (fst ?r) = mset (map Some [0 ..< ?n])"
    using d set_eq_iff_mset_eq_distinct by blast
  have "length (usedWords (fst (snd ?r))) = ?n" using u l by simp
  then have "usedWords (fst (snd (chooseWordIndex cfg (fst (snd ?r)) rs'))) =
      [fst (chooseWordIndex cfg (fst (snd ?r)) rs')]"
    by (simp add: chooseWordIndex_def resetUsedWordsIfNeeded_def Let_def split: prod.splits)
  with m show ?thesis by simp
qed

theorem chooseWordIndex_lap_witness:
  "usedWords initialState = [] \<and>
   fst (chooseMany threeWords 3 initialState [1, 1, 0]) = [Some 1, Some 2, Some 0] \<and>
   mset (fst (chooseMany threeWords 3 initialState [1, 1, 0])) = mset (map Some [0 ..< 3]) \<and>
   usedWords (fst (snd (chooseWordIndex threeWords
             (fst (snd (chooseMany threeWords 3 initialState [1, 1, 0]))) [2]))) = [Some 2]"
proof -
  have e: "usedWords initialState = []" by (simp add: initialState_def)
  have l: "length (words threeWords) = 3" by (simp add: threeWords_def)
  have c: "fst (chooseMany threeWords 3 initialState [1, 1, 0]) = [Some 1, Some 2, Some 0]"
    by code_simp
  have c2: "fst (chooseWordIndex threeWords
             (fst (snd (chooseMany threeWords 3 initialState [1, 1, 0]))) [2]) = Some 2"
    by code_simp
  show ?thesis
    using chooseWordIndex_lap[OF e, of threeWords "[1, 1, 0]" "[2]"] e c c2 unfolding l by simp
qed

subsection \<open>The candidate index\<close>

lemma byLen_indexEntry:
  "byLen (indexEntry cfg i st) l =
     (if l = answerLength cfg i
      then Some ((case byLen st l of None \<Rightarrow> [] | Some xs \<Rightarrow> xs) @ [i])
      else byLen st l)"
  by (simp add: indexEntry_def pushAt_def answerLength_def Let_def)

lemma byPOS_indexEntry:
  "byPOS (indexEntry cfg i st) p =
     (if posAt cfg i \<noteq> [] \<and> p = posAt cfg i
      then Some ((case byPOS st p of None \<Rightarrow> [] | Some xs \<Rightarrow> xs) @ [i])
      else byPOS st p)"
  by (simp add: indexEntry_def pushAt_def posAt_def Let_def)

lemma byLen_fold_indexEntry:
  "byLen (fold (indexEntry cfg) is st) l =
     (if filter (\<lambda>i. answerLength cfg i = l) is = [] then byLen st l
      else Some ((case byLen st l of None \<Rightarrow> [] | Some xs \<Rightarrow> xs) @
                 filter (\<lambda>i. answerLength cfg i = l) is))"
  by (induction "is" arbitrary: st) (auto simp: byLen_indexEntry)

lemma byPOS_fold_indexEntry:
  "byPOS (fold (indexEntry cfg) is st) p =
     (if filter (\<lambda>i. posAt cfg i = p \<and> p \<noteq> []) is = [] then byPOS st p
      else Some ((case byPOS st p of None \<Rightarrow> [] | Some xs \<Rightarrow> xs) @
                 filter (\<lambda>i. posAt cfg i = p \<and> p \<noteq> []) is))"
  by (induction "is" arbitrary: st) (auto simp: byPOS_indexEntry)

lemma byLen_buildIndex:
  "byLen (buildIndex cfg st) l =
     (if filter (\<lambda>i. answerLength cfg i = l) [0 ..< length (words cfg)] = [] then None
      else Some (filter (\<lambda>i. answerLength cfg i = l) [0 ..< length (words cfg)]))"
  by (simp add: buildIndex_def byLen_fold_indexEntry)

lemma byPOS_buildIndex:
  "byPOS (buildIndex cfg st) p =
     (if filter (\<lambda>i. posAt cfg i = p \<and> p \<noteq> []) [0 ..< length (words cfg)] = [] then None
      else Some (filter (\<lambda>i. posAt cfg i = p \<and> p \<noteq> []) [0 ..< length (words cfg)]))"
  by (simp add: buildIndex_def byPOS_fold_indexEntry)

lemma other_buildIndex:
  "usedWords (buildIndex cfg st) = usedWords st" "indexBuilt (buildIndex cfg st)"
proof -
  have "usedWords (fold (indexEntry cfg) is s) = usedWords s" for "is" s
    by (induction "is" arbitrary: s) (auto simp: indexEntry_def Let_def)
  then show "usedWords (buildIndex cfg st) = usedWords st" by (simp add: buildIndex_def)
  show "indexBuilt (buildIndex cfg st)" by (simp add: buildIndex_def)
qed

lemma buildIndex_byLen_eq: "byLen (buildIndex cfg st) = byLen (buildIndex cfg st')"
  by (rule ext) (simp add: byLen_buildIndex)

lemma buildIndex_byPOS_eq: "byPOS (buildIndex cfg st) = byPOS (buildIndex cfg st')"
  by (rule ext) (simp add: byPOS_buildIndex)

lemma indexFresh_cong:
  assumes "indexBuilt st' = indexBuilt st" "byPOS st' = byPOS st" "byLen st' = byLen st"
  shows "indexFresh cfg st' = indexFresh cfg st"
  using assms buildIndex_byPOS_eq[of cfg st' st] buildIndex_byLen_eq[of cfg st' st]
  by (simp add: indexFresh_def)

lemma indexFresh_buildIndex: "indexFresh cfg (buildIndex cfg st)"
  using buildIndex_byPOS_eq[of cfg "buildIndex cfg st" st]
    buildIndex_byLen_eq[of cfg "buildIndex cfg st" st]
  by (simp add: indexFresh_def)

lemma indexFresh_initial: "indexFresh cfg initialState"
  by (simp add: indexFresh_def initialState_def)

lemma usedWordsOk_initial: "usedWordsOk cfg initialState"
  by (simp add: usedWordsOk_def initialState_def)



subsection \<open>The candidate pool\<close>

lemma set_setAdd: "set (setAdd c x) = insert x (set c)"
  by (auto simp: setAdd_def)

lemma distinct_setAdd: "distinct c \<Longrightarrow> distinct (setAdd c x)"
  by (auto simp: setAdd_def)

lemma set_addOthers: "set (addOthers t arr c) = set c \<union> (set arr - {t})"
  unfolding addOthers_def by (induction arr arbitrary: c) (auto simp: set_setAdd)

lemma distinct_addOthers: "distinct c \<Longrightarrow> distinct (addOthers t arr c)"
  unfolding addOthers_def by (induction arr arbitrary: c) (auto simp: distinct_setAdd)

lemma lenStep_fresh:
  assumes "byLen st1 = byLen (buildIndex cfg st0)"
  shows "set (lenStep st1 t len d c) =
           set c \<union> {j. j < length (words cfg) \<and> j \<noteq> t \<and> int (answerLength cfg j) = int len + d}"
    and "distinct c \<Longrightarrow> distinct (lenStep st1 t len d c)"
proof -
  show "set (lenStep st1 t len d c) =
           set c \<union> {j. j < length (words cfg) \<and> j \<noteq> t \<and> int (answerLength cfg j) = int len + d}"
  proof (cases "int len + d < 0")
    case True
    then show ?thesis by (auto simp: lenStep_def Let_def)
  next
    case False
    then have e: "\<And>j. (answerLength cfg j = nat (int len + d)) = (int (answerLength cfg j) = int len + d)"
      by auto
    show ?thesis using False
      by (auto simp: lenStep_def Let_def assms byLen_buildIndex set_addOthers e
               filter_empty_conv split: if_splits)
  qed
  show "distinct c \<Longrightarrow> distinct (lenStep st1 t len d c)"
    by (auto simp: lenStep_def Let_def distinct_addOthers split: option.splits)
qed

lemma posStep_fresh:
  assumes "byPOS st1 = byPOS (buildIndex cfg st0)"
  shows "set (if posAt cfg t \<noteq> [] then
                (case byPOS st1 (posAt cfg t) of None \<Rightarrow> [] | Some arr \<Rightarrow> addOthers t arr [])
              else []) =
           {j. j < length (words cfg) \<and> j \<noteq> t \<and> posAt cfg t \<noteq> [] \<and> posAt cfg j = posAt cfg t}"
    and "distinct (if posAt cfg t \<noteq> [] then
                (case byPOS st1 (posAt cfg t) of None \<Rightarrow> [] | Some arr \<Rightarrow> addOthers t arr [])
              else [])"
proof -
  let ?F = "filter (\<lambda>j. posAt cfg j = posAt cfg t \<and> posAt cfg t \<noteq> []) [0 ..< length (words cfg)]"
  have look: "byPOS st1 (posAt cfg t) = (if ?F = [] then None else Some ?F)"
    by (simp add: assms byPOS_buildIndex)
  show "set (if posAt cfg t \<noteq> [] then
                (case byPOS st1 (posAt cfg t) of None \<Rightarrow> [] | Some arr \<Rightarrow> addOthers t arr [])
              else []) =
           {j. j < length (words cfg) \<and> j \<noteq> t \<and> posAt cfg t \<noteq> [] \<and> posAt cfg j = posAt cfg t}"
  proof (cases "posAt cfg t = []")
    case True
    then show ?thesis by simp
  next
    case ne: False
    show ?thesis
    proof (cases "?F = []")
      case True
      then have "byPOS st1 (posAt cfg t) = None" by (simp add: look)
      moreover from True have "\<forall>j < length (words cfg). posAt cfg j \<noteq> posAt cfg t"
        using ne by (auto simp: filter_empty_conv)
      ultimately show ?thesis using ne by auto
    next
      case False
      then have "byPOS st1 (posAt cfg t) = Some ?F" by (simp add: look)
      moreover have "set ?F = {j. j < length (words cfg) \<and> posAt cfg j = posAt cfg t}"
        using ne by auto
      ultimately show ?thesis using ne by (auto simp: set_addOthers)
    qed
  qed
  show "distinct (if posAt cfg t \<noteq> [] then
                (case byPOS st1 (posAt cfg t) of None \<Rightarrow> [] | Some arr \<Rightarrow> addOthers t arr [])
              else [])"
    by (simp add: distinct_addOthers split: option.splits)
qed

lemma neighbours_fresh:
  assumes p: "byPOS st1 = byPOS (buildIndex cfg st0)" and l: "byLen st1 = byLen (buildIndex cfg st0)"
  shows "set (fold (lenStep st1 t (answerLength cfg t)) [- 2, - 1, 0, 1, 2]
            (if posAt cfg t \<noteq> [] then
               (case byPOS st1 (posAt cfg t) of None \<Rightarrow> [] | Some arr \<Rightarrow> addOthers t arr [])
             else [])) = neighbourPool cfg t"
    and "distinct (fold (lenStep st1 t (answerLength cfg t)) [- 2, - 1, 0, 1, 2]
            (if posAt cfg t \<noteq> [] then
               (case byPOS st1 (posAt cfg t) of None \<Rightarrow> [] | Some arr \<Rightarrow> addOthers t arr [])
             else []))"
proof -
  let ?c0 = "if posAt cfg t \<noteq> [] then
               (case byPOS st1 (posAt cfg t) of None \<Rightarrow> [] | Some arr \<Rightarrow> addOthers t arr [])
             else []"
  note s0 = posStep_fresh(1)[OF p, of t] and d0 = posStep_fresh(2)[OF p, of t]
  note ls = lenStep_fresh(1)[OF l] and ld = lenStep_fresh(2)[OF l]
  show "distinct (fold (lenStep st1 t (answerLength cfg t)) [- 2, - 1, 0, 1, 2] ?c0)"
    using d0 by (simp add: ld del: if_split)
  have "set (fold (lenStep st1 t (answerLength cfg t)) [- 2, - 1, 0, 1, 2] ?c0) =
        set ?c0 \<union> {j. j < length (words cfg) \<and> j \<noteq> t \<and>
            (int (answerLength cfg j) = int (answerLength cfg t) + (- 2) \<or>
             int (answerLength cfg j) = int (answerLength cfg t) + (- 1) \<or>
             int (answerLength cfg j) = int (answerLength cfg t) + 0 \<or>
             int (answerLength cfg j) = int (answerLength cfg t) + 1 \<or>
             int (answerLength cfg j) = int (answerLength cfg t) + 2)}"
    unfolding fold_simps ls by blast
  also have "\<dots> = neighbourPool cfg t"
    unfolding s0 neighbourPool_def by (auto simp: abs_le_iff)
  finally show "set (fold (lenStep st1 t (answerLength cfg t)) [- 2, - 1, 0, 1, 2] ?c0) =
      neighbourPool cfg t" .
qed

lemma candidatePool_others: "candidatePool cfg t \<subseteq> {j. j < length (words cfg) \<and> j \<noteq> t}"
  by (auto simp: candidatePool_def neighbourPool_def)

lemma getCandidates_props:
  assumes fresh: "indexFresh cfg st"
  shows "distinct (fst (getCandidateDistractorIndices cfg st t rs))
    \<and> set (fst (getCandidateDistractorIndices cfg st t rs)) \<subseteq> candidatePool cfg t
    \<and> length (fst (getCandidateDistractorIndices cfg st t rs)) \<le> 200
    \<and> (card (candidatePool cfg t) \<le> 200 \<longrightarrow>
          set (fst (getCandidateDistractorIndices cfg st t rs)) = candidatePool cfg t)
    \<and> (200 < card (candidatePool cfg t) \<longrightarrow>
          length (fst (getCandidateDistractorIndices cfg st t rs)) = 200)
    \<and> fst (snd (getCandidateDistractorIndices cfg st t rs)) =
          (if indexBuilt st then st else buildIndex cfg st)"
proof -
  define st1 where "st1 = (if \<not> indexBuilt st then buildIndex cfg st else st)"
  define c1 where "c1 = fold (lenStep st1 t (answerLength cfg t)) [- 2, - 1, 0, 1, 2]
            (if posAt cfg t \<noteq> [] then
               (case byPOS st1 (posAt cfg t) of None \<Rightarrow> [] | Some arr \<Rightarrow> addOthers t arr [])
             else [])"
  define c2 where "c2 = (if length c1 = 0 then addOthers t [0 ..< length (words cfg)] c1 else c1)"
  have p: "byPOS st1 = byPOS (buildIndex cfg st)" and l: "byLen st1 = byLen (buildIndex cfg st)"
    using fresh by (auto simp: st1_def indexFresh_def)
  have s1: "set c1 = neighbourPool cfg t" and d1: "distinct c1"
    unfolding c1_def by (rule neighbours_fresh[OF p l])+
  have s2: "set c2 = candidatePool cfg t"
  proof (cases "c1 = []")
    case True
    then have "neighbourPool cfg t = {}" using s1 by simp
    then show ?thesis using True by (auto simp: c2_def candidatePool_def set_addOthers)
  next
    case False
    then have "neighbourPool cfg t \<noteq> {}" using s1 by auto
    then show ?thesis using False s1 by (simp add: c2_def candidatePool_def)
  qed
  have d2: "distinct c2" using d1 by (simp add: c2_def distinct_addOthers)
  have card: "card (candidatePool cfg t) = length c2"
    using s2 d2 by (metis distinct_card)
  have unf: "getCandidateDistractorIndices cfg st t rs =
     (if length c2 > 200
      then (case shuffleArray c2 rs of (sh, rest) \<Rightarrow> (take 200 sh, st1, rest))
      else (c2, st1, rs))"
    unfolding getCandidateDistractorIndices_def Let_def c2_def c1_def st1_def
      posAt_def answerLength_def ..
  have st: "st1 = (if indexBuilt st then st else buildIndex cfg st)" by (simp add: st1_def)
  show ?thesis
  proof (cases "length c2 > 200")
    case False
    then show ?thesis using s2 d2 card st by (simp add: unf)
  next
    case True
    obtain sh rest where sh: "shuffleArray c2 rs = (sh, rest)" by (cases "shuffleArray c2 rs")
    have ds: "distinct sh" using shuffleArray_distinct[of c2 rs] d2 sh by simp
    have ss: "set sh = set c2" using shuffleArray_set[of c2 rs] sh by simp
    have ls: "length sh = length c2" using shuffleArray_length[of c2 rs] sh by simp
    have "set (take 200 sh) \<subseteq> set sh" by (rule set_take_subset)
    then show ?thesis using True ds ss ls s2 card st by (simp add: unf sh)
  qed
qed

text \<open>
  Claim C3. With an index that is fresh (or not built yet), for every catalog, target index
  and random source, \<^verbatim>\<open>getCandidateDistractorIndices\<close> returns distinct indices of the
  candidate pool: the other indices sharing the target's part of speech or within 2 of its
  answer length, or every other index when there is none. It returns the whole pool when
  the pool has at most 200 elements and exactly 200 of its elements otherwise; the target
  is never among them.
\<close>

theorem candidate_pool:
  assumes "indexFresh cfg st"
  shows "distinct (fst (getCandidateDistractorIndices cfg st t rs))
    \<and> set (fst (getCandidateDistractorIndices cfg st t rs)) \<subseteq> candidatePool cfg t
    \<and> t \<notin> set (fst (getCandidateDistractorIndices cfg st t rs))
    \<and> length (fst (getCandidateDistractorIndices cfg st t rs)) \<le> 200
    \<and> (card (candidatePool cfg t) \<le> 200 \<longrightarrow>
          set (fst (getCandidateDistractorIndices cfg st t rs)) = candidatePool cfg t)
    \<and> (200 < card (candidatePool cfg t) \<longrightarrow>
          length (fst (getCandidateDistractorIndices cfg st t rs)) = 200)"
proof -
  have "t \<notin> candidatePool cfg t" using candidatePool_others[of cfg t] by auto
  then show ?thesis using getCandidates_props[OF assms, of t rs] by auto
qed

theorem candidate_pool_witness:
  "indexFresh threeWords initialState \<and>
   fst (getCandidateDistractorIndices threeWords initialState 0 []) = [1, 2] \<and>
   candidatePool threeWords 0 = {1, 2}"
proof -
  have e: "fst (getCandidateDistractorIndices threeWords initialState 0 []) = [1, 2]"
    by code_simp
  have len: "length (words threeWords) = 3" by (simp add: threeWords_def)
  have "candidatePool threeWords 0 \<subseteq> {j. j < 3 \<and> j \<noteq> 0}"
    using candidatePool_others[of threeWords 0] unfolding len .
  also have "\<dots> = {1, 2}" by auto
  finally have up: "candidatePool threeWords 0 \<subseteq> {1, 2}" .
  show ?thesis
    using candidate_pool[OF indexFresh_initial, of threeWords 0 "[]"] e up
      indexFresh_initial[of threeWords]
    by auto
qed

subsection \<open>Membership in the index\<close>



subsection \<open>The longest common substring\<close>

lemma commonSuffix_zero_right: "commonSuffix a b i 0 = 0"
  by (cases i) simp_all

lemma zero_table:
  "r \<le> m \<Longrightarrow> length (replicate (m + 1) (replicate (n + 1) (0::nat)) ! r) = n + 1"
  "r \<le> m \<Longrightarrow> c \<le> n \<Longrightarrow> replicate (m + 1) (replicate (n + 1) (0::nat)) ! r ! c = 0"
  by (simp_all del: replicate.simps add: nth_replicate less_Suc_eq_le)

lemma lcsInv_init:
  "lcsInv a b 1 1 (replicate (length a + 1) (replicate (length b + 1) 0), 0)"
  unfolding lcsInv_def prod.case
proof (intro conjI allI impI)
  show "length (replicate (length a + 1) (replicate (length b + 1) (0::nat))) = length a + 1"
    by simp
next
  fix r assume "r \<le> length a"
  then show "length (replicate (length a + 1) (replicate (length b + 1) (0::nat)) ! r) = length b + 1"
    by (rule zero_table)
next
  fix r c assume rc: "r \<le> length a" "c \<le> length b"
  have "commonSuffix a b r c = 0" if "r < 1 \<or> (r = 1 \<and> c < 1)"
    using that by (auto simp: commonSuffix_zero_right)
  then show "replicate (length a + 1) (replicate (length b + 1) 0) ! r ! c =
      (if r < 1 \<or> r = 1 \<and> c < 1 then commonSuffix a b r c else 0)"
    unfolding zero_table(2)[OF rc] by simp
next
  fix r c :: nat assume "r < 1 \<or> r = 1 \<and> c < 1"
  then show "commonSuffix a b r c \<le> 0" by (auto simp: commonSuffix_zero_right)
next
  show "\<exists>r \<le> length a. \<exists>c \<le> length b. commonSuffix a b r c = 0"
    by (rule exI[of _ 0], simp, rule exI[of _ 0], simp)
qed

lemma lcsInv_cell:
  assumes inv: "lcsInv a b i j s" and i: "1 \<le> i" "i \<le> length a" and j: "1 \<le> j" "j \<le> length b"
  shows "lcsInv a b i (j + 1) (lcsCell a b i j s)"
proof -
  obtain dp mx where s: "s = (dp, mx)" by (cases s)
  obtain i' where i': "i = Suc i'" using i by (cases i) auto
  obtain j' where j': "j = Suc j'" using j by (cases j) auto
  from inv s have len: "length dp = length a + 1"
    and rows: "\<forall>r \<le> length a. length (dp ! r) = length b + 1"
    and cells: "\<forall>r \<le> length a. \<forall>c \<le> length b.
           dp ! r ! c = (if r < i \<or> (r = i \<and> c < j) then commonSuffix a b r c else 0)"
    and ub: "\<forall>r \<le> length a. \<forall>c \<le> length b.
           (r < i \<or> (r = i \<and> c < j)) \<longrightarrow> commonSuffix a b r c \<le> mx"
    and att: "\<exists>r \<le> length a. \<exists>c \<le> length b. commonSuffix a b r c = mx"
    by (auto simp: lcsInv_def)
  have prev: "dp ! i' ! j' = commonSuffix a b i' j'"
    using cells i j i' j' by auto
  have cur: "dp ! i ! j = 0" using cells i j by auto
  show ?thesis
  proof (cases "a ! i' = b ! j'")
    case False
    then have z: "commonSuffix a b i j = 0" by (simp add: i' j')
    have st: "lcsCell a b i j s = (dp, mx)" using False by (simp add: lcsCell_def s i' j')
    have c': "\<forall>r \<le> length a. \<forall>c \<le> length b.
           dp ! r ! c = (if r < i \<or> (r = i \<and> c < j + 1) then commonSuffix a b r c else 0)"
    proof (intro allI impI)
      fix r c assume rc: "r \<le> length a" "c \<le> length b"
      show "dp ! r ! c = (if r < i \<or> (r = i \<and> c < j + 1) then commonSuffix a b r c else 0)"
      proof (cases "r = i \<and> c = j")
        case True
        then show ?thesis using cur z by simp
      next
        case False
        then have "(r < i \<or> (r = i \<and> c < j + 1)) = (r < i \<or> (r = i \<and> c < j))" by auto
        then show ?thesis using cells rc by simp
      qed
    qed
    have u': "\<forall>r \<le> length a. \<forall>c \<le> length b.
           (r < i \<or> (r = i \<and> c < j + 1)) \<longrightarrow> commonSuffix a b r c \<le> mx"
    proof (intro allI impI)
      fix r c assume rc: "r \<le> length a" "c \<le> length b" and p: "r < i \<or> (r = i \<and> c < j + 1)"
      show "commonSuffix a b r c \<le> mx"
      proof (cases "r = i \<and> c = j")
        case True
        then show ?thesis using z by simp
      next
        case False
        then have "r < i \<or> (r = i \<and> c < j)" using p by auto
        then show ?thesis using ub rc by blast
      qed
    qed
    show ?thesis unfolding st lcsInv_def using len rows c' u' att by simp
  next
    case True
    define v where "v = dp ! i' ! j' + 1"
    define dp' where "dp' = dp[i := (dp ! i)[j := v]]"
    have vv: "v = commonSuffix a b i j" using True prev by (simp add: v_def i' j')
    have st: "lcsCell a b i j s = (dp', if v > mx then v else mx)"
      using True by (simp add: lcsCell_def s i' j' v_def dp'_def Let_def)
    have len': "length dp' = length a + 1" using len by (simp add: dp'_def)
    have nth': "dp' ! r ! c = (if r = i \<and> c = j then v else dp ! r ! c)"
      if "r \<le> length a" "c \<le> length b" for r c
      using that len rows i j by (auto simp: dp'_def nth_list_update)
    have rows': "\<forall>r \<le> length a. length (dp' ! r) = length b + 1"
      using len rows i by (auto simp: dp'_def nth_list_update)
    have c': "\<forall>r \<le> length a. \<forall>c \<le> length b.
           dp' ! r ! c = (if r < i \<or> (r = i \<and> c < j + 1) then commonSuffix a b r c else 0)"
    proof (intro allI impI)
      fix r c assume rc: "r \<le> length a" "c \<le> length b"
      show "dp' ! r ! c = (if r < i \<or> (r = i \<and> c < j + 1) then commonSuffix a b r c else 0)"
      proof (cases "r = i \<and> c = j")
        case True
        then show ?thesis using nth'[OF rc] vv by simp
      next
        case False
        then have "(r < i \<or> (r = i \<and> c < j + 1)) = (r < i \<or> (r = i \<and> c < j))" by auto
        then show ?thesis using cells rc nth'[OF rc] False by simp
      qed
    qed
    have u': "\<forall>r \<le> length a. \<forall>c \<le> length b.
           (r < i \<or> (r = i \<and> c < j + 1)) \<longrightarrow> commonSuffix a b r c \<le> (if v > mx then v else mx)"
    proof (intro allI impI)
      fix r c assume rc: "r \<le> length a" "c \<le> length b" and p: "r < i \<or> (r = i \<and> c < j + 1)"
      show "commonSuffix a b r c \<le> (if v > mx then v else mx)"
      proof (cases "r = i \<and> c = j")
        case True
        then show ?thesis using vv by simp
      next
        case False
        then have "r < i \<or> (r = i \<and> c < j)" using p by auto
        then have "commonSuffix a b r c \<le> mx" using ub rc by blast
        then show ?thesis by simp
      qed
    qed
    have a': "\<exists>r \<le> length a. \<exists>c \<le> length b. commonSuffix a b r c = (if v > mx then v else mx)"
    proof (cases "v > mx")
      case True
      then show ?thesis using vv i j by auto
    next
      case False
      then show ?thesis using att by simp
    qed
    show ?thesis unfolding st lcsInv_def using len' rows' c' u' a' by simp
  qed
qed

lemma lcsInv_row_prefix:
  assumes inv: "lcsInv a b i 1 s" and i: "1 \<le> i" "i \<le> length a"
  shows "k \<le> length b \<Longrightarrow> lcsInv a b i (k + 1) (fold (lcsCell a b i) [1 ..< k + 1] s)"
proof (induction k)
  case 0
  then show ?case using inv by simp
next
  case (Suc k)
  then have ih: "lcsInv a b i (k + 1) (fold (lcsCell a b i) [1 ..< k + 1] s)" by simp
  have "lcsInv a b i (k + 1 + 1) (lcsCell a b i (k + 1) (fold (lcsCell a b i) [1 ..< k + 1] s))"
    by (rule lcsInv_cell[OF ih i]) (use Suc.prems in simp_all)
  then show ?case by simp
qed

lemma lcsInv_next_row:
  assumes "lcsInv a b i (length b + 1) s"
  shows "lcsInv a b (i + 1) 1 s"
proof -
  have e: "(r < i + 1 \<or> (r = i + 1 \<and> c < 1)) = (r < i \<or> (r = i \<and> c < length b + 1)) \<or> c = 0"
    if "c \<le> length b" for r c using that by auto
  obtain dp mx where s: "s = (dp, mx)" by (cases s)
  show ?thesis using assms unfolding lcsInv_def s
    apply (simp only: prod.case)
    apply (intro conjI)
        apply blast
       apply blast
      apply (metis commonSuffix_zero_right e)
     apply (metis commonSuffix_zero_right e le0)
    apply blast
    done
qed

lemma lcsInv_row:
  assumes "lcsInv a b i 1 s" "1 \<le> i" "i \<le> length a"
  shows "lcsInv a b (i + 1) 1 (lcsRow a b i s)"
  unfolding lcsRow_def
  by (rule lcsInv_next_row) (rule lcsInv_row_prefix[OF assms order_refl])

lemma lcsInv_rows:
  "k \<le> length a \<Longrightarrow>
   lcsInv a b (k + 1) 1
     (fold (lcsRow a b) [1 ..< k + 1] (replicate (length a + 1) (replicate (length b + 1) 0), 0))"
proof (induction k)
  case 0
  then show ?case using lcsInv_init[of a b] by simp
next
  case (Suc k)
  then have ih: "lcsInv a b (k + 1) 1
     (fold (lcsRow a b) [1 ..< k + 1] (replicate (length a + 1) (replicate (length b + 1) 0), 0))"
    by simp
  have "lcsInv a b (k + 1 + 1) 1 (lcsRow a b (k + 1)
     (fold (lcsRow a b) [1 ..< k + 1] (replicate (length a + 1) (replicate (length b + 1) 0), 0)))"
    by (rule lcsInv_row[OF ih]) (use Suc.prems in simp_all)
  then show ?case by simp
qed

lemma lcs_is_max_commonSuffix:
  "(\<forall>r \<le> length a. \<forall>c \<le> length b. commonSuffix a b r c \<le> longestCommonSubstringLength a b)
   \<and> (\<exists>r \<le> length a. \<exists>c \<le> length b. commonSuffix a b r c = longestCommonSubstringLength a b)"
proof -
  let ?s = "fold (lcsRow a b) [1 ..< length a + 1]
              (replicate (length a + 1) (replicate (length b + 1) 0), 0)"
  have "lcsInv a b (length a + 1) 1 ?s" by (rule lcsInv_rows) simp
  moreover have "longestCommonSubstringLength a b = snd ?s"
    by (simp add: longestCommonSubstringLength_def Let_def)
  ultimately show ?thesis
    by (cases ?s) (auto simp: lcsInv_def)
qed

lemma commonSuffix_is_suffix:
  "r \<le> length a \<Longrightarrow> c \<le> length b \<Longrightarrow>
   \<exists>s. length s = commonSuffix a b r c \<and> suffix s (take r a) \<and> suffix s (take c b)"
proof (induction a b r c rule: commonSuffix.induct)
  case (1 a b j)
  then show ?case by simp
next
  case (2 a b i)
  then show ?case by simp
next
  case (3 a b i j)
  show ?case
  proof (cases "a ! i = b ! j")
    case False
    then show ?thesis by simp
  next
    case True
    from 3 True obtain s where s: "length s = commonSuffix a b i j" "suffix s (take i a)"
      "suffix s (take j b)" by auto
    have ta: "take (Suc i) a = take i a @ [a ! i]" using 3 by (simp add: take_Suc_conv_app_nth)
    have tb: "take (Suc j) b = take j b @ [a ! i]" using 3 True by (simp add: take_Suc_conv_app_nth)
    have "length (s @ [a ! i]) = commonSuffix a b (Suc i) (Suc j)" using s True by simp
    moreover have "suffix (s @ [a ! i]) (take (Suc i) a)" unfolding ta using s by simp
    moreover have "suffix (s @ [a ! i]) (take (Suc j) b)" unfolding tb using s by simp
    ultimately show ?thesis by blast
  qed
qed

lemma commonSuffix_is_common:
  assumes "r \<le> length a" "c \<le> length b"
  shows "\<exists>s. length s = commonSuffix a b r c \<and> sublist s a \<and> sublist s b"
proof -
  from commonSuffix_is_suffix[OF assms] obtain s where
    s: "length s = commonSuffix a b r c" "suffix s (take r a)" "suffix s (take c b)" by blast
  from s(2) obtain u where u: "take r a = u @ s" by (auto simp: suffix_def)
  from s(3) obtain v where v: "take c b = v @ s" by (auto simp: suffix_def)
  have "a = u @ s @ drop r a" using append_take_drop_id[of r a] u by simp
  moreover have "b = v @ s @ drop c b" using append_take_drop_id[of c b] v by simp
  ultimately have "sublist s a" "sublist s b" unfolding sublist_def by blast+
  with s show ?thesis by blast
qed

lemma commonSuffix_covers:
  assumes a: "a = p @ s @ q" and b: "b = p' @ s @ q'"
  shows "k \<le> length s \<Longrightarrow> k \<le> commonSuffix a b (length p + k) (length p' + k)"
proof (induction k)
  case 0
  then show ?case by simp
next
  case (Suc k)
  have "a ! (length p + k) = s ! k" using Suc.prems by (simp add: a nth_append)
  moreover have "b ! (length p' + k) = s ! k" using Suc.prems by (simp add: b nth_append)
  ultimately show ?case using Suc by simp
qed

lemma lcs_refines: "longestCommonSubstringLength a b = lcsSpec a b"
proof -
  let ?S = "{length s | s. sublist s a \<and> sublist s b}"
  let ?m = "longestCommonSubstringLength a b"
  have fin: "finite ?S"
  proof (rule finite_subset)
    show "?S \<subseteq> {0 .. length a}" by (auto dest: sublist_length_le)
  qed simp
  from lcs_is_max_commonSuffix[of a b] obtain r c where
    rc: "r \<le> length a" "c \<le> length b" "commonSuffix a b r c = ?m"
    and ub: "\<forall>r \<le> length a. \<forall>c \<le> length b. commonSuffix a b r c \<le> ?m" by blast
  have mem: "?m \<in> ?S" using commonSuffix_is_common[OF rc(1,2)] rc(3) by force
  have le: "y \<le> ?m" if "y \<in> ?S" for y
  proof -
    from that obtain s where s: "y = length s" "sublist s a" "sublist s b" by blast
    then obtain p q p' q' where d: "a = p @ s @ q" "b = p' @ s @ q'"
      by (auto simp: sublist_def)
    have "length s \<le> commonSuffix a b (length p + length s) (length p' + length s)"
      by (rule commonSuffix_covers[OF d]) simp
    also have "\<dots> \<le> ?m" using ub d by simp
    finally show ?thesis using s by simp
  qed
  have "Max ?S = ?m" by (rule Max_eqI[OF fin le mem])
  then show ?thesis by (simp add: lcsSpec_def)
qed

lemma length_toLowerCase: "length (toLowerCase s) = length s"
  by (simp add: toLowerCase_def)

lemma filterSimilar_in_range:
  "\<forall>i \<in> set cands. i < length (words cfg) \<Longrightarrow>
   filterSimilar cfg target cands =
     Inr (filter (\<lambda>i. keepCandidate cfg target (words cfg ! i)) cands)"
  by (induction cands) (auto simp: wordAt_def)

lemma keepCandidate_spec:
  "keepCandidate cfg (toLowerCase (toStr (answerAt cfg t))) (words cfg ! i) =
     (\<not> tooSimilar cfg t i)"
  unfolding keepCandidate_def tooSimilar_def Let_def lcs_refines length_toLowerCase not_le
    answerAt_def ..

subsection \<open>Question creation\<close>

lemma collectWrong_in_range:
  "\<forall>d \<in> set ds. d < length (words cfg) \<Longrightarrow>
   collectWrong cfg i ds acc =
     Inr (acc @ map (answerAt cfg) (take (nat (selection cfg - 1 - i)) ds))"
proof (induction ds arbitrary: i acc)
  case Nil
  then show ?case by simp
next
  case (Cons d ds)
  show ?case
  proof (cases "i < selection cfg - 1")
    case True
    then have "nat (selection cfg - 1 - i) = Suc (nat (selection cfg - 1 - (i + 1)))" by simp
    then show ?thesis using Cons True by (simp add: wordAt_def answerAt_def)
  next
    case False
    then show ?thesis by simp
  qed
qed

lemma topUp_eq:
  "topUp cfg ws acc =
     acc @ map (\<lambda>w. entryField w (mode cfg))
             (take (nat (selection cfg - 1 - int (length acc))) ws)"
proof (induction ws arbitrary: acc)
  case Nil
  then show ?case by simp
next
  case (Cons w ws)
  show ?case
  proof (cases "int (length acc) < selection cfg - 1")
    case True
    then have "nat (selection cfg - 1 - int (length acc)) =
        Suc (nat (selection cfg - 1 - int (length (acc @ [entryField w (mode cfg)]))))" by simp
    then show ?thesis using True Cons[of "acc @ [entryField w (mode cfg)]"] by simp
  next
    case False
    then show ?thesis by simp
  qed
qed

lemma indexOf_first:
  "x \<in> set xs \<Longrightarrow>
   0 \<le> indexOf xs x \<and> nat (indexOf xs x) < length xs \<and> xs ! nat (indexOf xs x) = x \<and>
   (\<forall>k < nat (indexOf xs x). xs ! k \<noteq> x)"
proof (induction xs)
  case Nil
  then show ?case by simp
next
  case (Cons y ys)
  show ?case
  proof (cases "y = x")
    case True
    then show ?thesis by simp
  next
    case False
    with Cons have ih: "0 \<le> indexOf ys x" "nat (indexOf ys x) < length ys"
      "ys ! nat (indexOf ys x) = x" "\<forall>k < nat (indexOf ys x). ys ! k \<noteq> x" by auto
    have n: "nat (indexOf ys x + 1) = Suc (nat (indexOf ys x))" using ih(1) by simp
    have e: "indexOf (y # ys) x = indexOf ys x + 1" using False ih(1) by (simp add: Let_def)
    have "\<forall>k < Suc (nat (indexOf ys x)). (y # ys) ! k \<noteq> x"
      using False ih(4) by (auto simp: nth_Cons split: nat.splits)
    then show ?thesis unfolding e n using ih by simp
  qed
qed

lemma card_others: "t < n \<Longrightarrow> card {j. j < n \<and> j \<noteq> t} = n - 1"
proof -
  assume t: "t < n"
  have "{j. j < n \<and> j \<noteq> t} = {0 ..< n} - {t}" by auto
  then show ?thesis using t by simp
qed

lemma createChoicesFor_stages:
  assumes t: "t < length (words cfg)" and fresh: "indexFresh cfg st"
  shows "\<exists>sh q rs'.
       createChoicesFor cfg st (Some t) rs =
         Inr (q, (if indexBuilt st then st else buildIndex cfg st), rs')
     \<and> mset sh =
         mset (if avoidSimilarDistractors cfg
               then filter (\<lambda>i. keepCandidate cfg (toLowerCase (toStr (answerAt cfg t)))
                              (words cfg ! i)) (candidateList cfg st t rs)
               else candidateList cfg st t rs)
     \<and> distinct sh \<and> set sh \<subseteq> {j. j < length (words cfg) \<and> j \<noteq> t}
     \<and> mset (choices q) =
         mset (answerAt cfg t # map (answerAt cfg)
                (take (nat (selection cfg - 1))
                   (sh @ filter (\<lambda>idx. idx \<noteq> t \<and> idx \<notin> set sh) [0 ..< length (words cfg)])))
     \<and> correctIndex q = indexOf (choices q) (answerAt cfg t)
     \<and> word q = words cfg ! t"
proof -
  let ?n = "length (words cfg)"
  let ?k = "nat (selection cfg - 1)"
  let ?others = "{j. j < ?n \<and> j \<noteq> t}"
  let ?target = "toLowerCase (toStr (answerAt cfg t))"
  obtain candIdx st1 rs1 where g: "getCandidateDistractorIndices cfg st t rs = (candIdx, st1, rs1)"
    by (cases "getCandidateDistractorIndices cfg st t rs")
  from getCandidates_props[OF fresh, of t rs] g
  have dc: "distinct candIdx" and sc: "set candIdx \<subseteq> candidatePool cfg t"
    and st1: "st1 = (if indexBuilt st then st else buildIndex cfg st)" by auto
  define cand0 where "cand0 = (if length candIdx = 0 then otherIndices cfg t else candIdx)"
  have c0: "cand0 = candidateList cfg st t rs" by (simp add: cand0_def candidateList_def g)
  have d0: "distinct cand0" and s0: "set cand0 \<subseteq> ?others"
    using dc sc candidatePool_others[of cfg t] by (auto simp: cand0_def otherIndices_def)
  define cand1 where "cand1 =
     (if avoidSimilarDistractors cfg
      then filter (\<lambda>i. keepCandidate cfg ?target (words cfg ! i)) cand0 else cand0)"
  have f: "(if avoidSimilarDistractors cfg then filterSimilar cfg ?target cand0 else Inr cand0) =
      Inr cand1"
    using s0 by (auto simp: cand1_def intro!: filterSimilar_in_range)
  have d1: "distinct cand1" and s1: "set cand1 \<subseteq> ?others"
    using d0 s0 by (auto simp: cand1_def)
  obtain sh rs2 where sh: "shuffleArray cand1 rs1 = (sh, rs2)" by (cases "shuffleArray cand1 rs1")
  have msh: "mset sh = mset cand1" using shuffleArray_mset[of cand1 rs1] sh by simp
  have dsh: "distinct sh" using shuffleArray_distinct[of cand1 rs1] d1 sh by simp
  have ssh: "set sh \<subseteq> ?others" using shuffleArray_set[of cand1 rs1] s1 sh by simp
  define fb where "fb = filter (\<lambda>idx. idx \<noteq> t \<and> idx \<notin> set sh) [0 ..< ?n]"
  define wrong0 where "wrong0 = map (answerAt cfg) (take ?k sh)"
  have cw: "collectWrong cfg 0 sh [] = Inr wrong0"
    unfolding wrong0_def using ssh by (subst collectWrong_in_range) auto
  define wrong1 where "wrong1 =
     (if int (length wrong0) < selection cfg - 1
      then topUp cfg (map (\<lambda>idx. words cfg ! idx) fb) wrong0 else wrong0)"
  have w1: "wrong1 = map (answerAt cfg) (take ?k (sh @ fb))"
  proof (cases "int (length wrong0) < selection cfg - 1")
    case True
    then have short: "length sh < ?k" by (auto simp: wrong0_def min_def split: if_splits)
    then have w0: "wrong0 = map (answerAt cfg) sh" by (simp add: wrong0_def)
    have "nat (selection cfg - 1 - int (length wrong0)) = ?k - length sh"
      using short by (simp add: w0)
    then have "wrong1 = map (answerAt cfg) sh @ map (answerAt cfg) (take (?k - length sh) fb)"
      using True by (simp add: wrong1_def topUp_eq w0 take_map answerAt_def[abs_def] comp_def)
    then show ?thesis using short by simp
  next
    case False
    then have "?k \<le> length sh" by (auto simp: wrong0_def min_def split: if_splits)
    then show ?thesis using False by (simp add: wrong1_def wrong0_def)
  qed
  obtain chs rs3 where chs: "shuffleArray (answerAt cfg t # wrong1) rs2 = (chs, rs3)"
    by (cases "shuffleArray (answerAt cfg t # wrong1) rs2")
  have mchs: "mset chs = mset (answerAt cfg t # wrong1)"
    using shuffleArray_mset[of "answerAt cfg t # wrong1" rs2] chs by simp
  have res: "createChoicesFor cfg st (Some t) rs =
      Inr (\<lparr>choices = chs, correctIndex = indexOf chs (answerAt cfg t), word = words cfg ! t\<rparr>,
           st1, rs3)"
    unfolding createChoicesFor_def Let_def
    by (simp only: option.case wordAt_def t if_True g prod.case answerAt_def[symmetric]
          cand0_def[symmetric] f sum.case sh cw fb_def[symmetric]
          wrong1_def[symmetric] chs)
  have m1: "mset sh =
         mset (if avoidSimilarDistractors cfg
               then filter (\<lambda>i. keepCandidate cfg ?target (words cfg ! i))
                      (candidateList cfg st t rs)
               else candidateList cfg st t rs)"
    unfolding msh cand1_def c0 ..
  have m2: "mset chs = mset (answerAt cfg t # map (answerAt cfg) (take ?k (sh @ fb)))"
    using mchs w1 by simp
  show ?thesis
    unfolding res st1[symmetric]
    apply (rule exI[of _ sh])
    apply (rule exI[of _ "\<lparr>choices = chs, correctIndex = indexOf chs (answerAt cfg t),
          word = words cfg ! t\<rparr>"])
    apply (rule exI[of _ rs3])
    using m1 dsh ssh m2 unfolding fb_def by simp
qed

lemma createChoicesFor_result:
  assumes t: "t < length (words cfg)" and fresh: "indexFresh cfg st"
  shows "\<exists>ds q rs'.
       createChoicesFor cfg st (Some t) rs =
         Inr (q, (if indexBuilt st then st else buildIndex cfg st), rs')
     \<and> distinct ds \<and> set ds \<subseteq> {j. j < length (words cfg) \<and> j \<noteq> t}
     \<and> length ds = min (nat (selection cfg - 1)) (length (words cfg) - 1)
     \<and> mset (choices q) = mset (answerAt cfg t # map (answerAt cfg) ds)
     \<and> correctIndex q = indexOf (choices q) (answerAt cfg t)
     \<and> word q = words cfg ! t"
proof -
  let ?n = "length (words cfg)"
  let ?k = "nat (selection cfg - 1)"
  let ?others = "{j. j < ?n \<and> j \<noteq> t}"
  from createChoicesFor_stages[OF t fresh, of rs] obtain sh q rs' where
    r: "createChoicesFor cfg st (Some t) rs =
         Inr (q, (if indexBuilt st then st else buildIndex cfg st), rs')"
    and dsh: "distinct sh" and ssh: "set sh \<subseteq> ?others"
    and m: "mset (choices q) =
         mset (answerAt cfg t # map (answerAt cfg)
                (take ?k (sh @ filter (\<lambda>idx. idx \<noteq> t \<and> idx \<notin> set sh) [0 ..< ?n])))"
    and ci: "correctIndex q = indexOf (choices q) (answerAt cfg t)"
    and w: "word q = words cfg ! t"
    by blast
  define fb where "fb = filter (\<lambda>idx. idx \<noteq> t \<and> idx \<notin> set sh) [0 ..< ?n]"
  have dall: "distinct (sh @ fb)" using dsh by (auto simp: fb_def)
  have sall: "set (sh @ fb) = ?others" using ssh by (auto simp: fb_def)
  have lall: "length (sh @ fb) = ?n - 1"
    using dall sall card_others[OF t] by (metis distinct_card)
  let ?ds = "take ?k (sh @ fb)"
  have "distinct ?ds" using dall by (rule distinct_take)
  moreover have "set ?ds \<subseteq> ?others" using sall set_take_subset[of ?k "sh @ fb"] by blast
  moreover have "length ?ds = min ?k (?n - 1)" using lall by simp
  moreover have "mset (choices q) = mset (answerAt cfg t # map (answerAt cfg) ?ds)"
    using m by (simp add: fb_def)
  ultimately show ?thesis using r ci w by blast
qed

lemma changeQuestion_result:
  assumes ne: "words cfg \<noteq> []" and ok: "usedWordsOk cfg st" and fresh: "indexFresh cfg st"
  shows "\<exists>t ds q st' rs'.
       changeQuestion cfg st rs = Inr (q, st', rs')
     \<and> t < length (words cfg) \<and> fst (chooseWordIndex cfg st rs) = Some t
     \<and> distinct ds \<and> set ds \<subseteq> {j. j < length (words cfg) \<and> j \<noteq> t}
     \<and> length ds = min (nat (selection cfg - 1)) (length (words cfg) - 1)
     \<and> mset (choices q) = mset (answerAt cfg t # map (answerAt cfg) ds)
     \<and> correctIndex q = indexOf (choices q) (answerAt cfg t)
     \<and> word q = words cfg ! t
     \<and> correctAnswerIndex st' = correctIndex q
     \<and> currentQuestion st' = Some (words cfg ! t, t)
     \<and> usedWordsOk cfg st' \<and> indexFresh cfg st'"
proof -
  let ?n = "length (words cfg)"
  obtain c st1 rs1 where c: "chooseWordIndex cfg st rs = (c, st1, rs1)"
    by (cases "chooseWordIndex cfg st rs")
  have ne': "length (usedWords st) \<noteq> ?n \<or> words cfg \<noteq> []" using ne by simp
  from chooseWordIndex_step[OF ok ne', of rs] c obtain t where
    t: "t < ?n" "c = Some t"
    and s1: "st1 = (resetUsedWordsIfNeeded ?n st)
               \<lparr>usedWords := usedWords (resetUsedWordsIfNeeded ?n st) @ [Some t]\<rparr>"
    by auto
  have ok1: "usedWordsOk cfg st1" using chooseWordIndex_ok[OF ok ne', of rs] c by simp
  have fresh1: "indexFresh cfg st1"
    using fresh by (subst indexFresh_cong[of st1 st]) (simp_all add: s1 resetUsedWordsIfNeeded_def)
  let ?st2 = "if indexBuilt st1 then st1 else buildIndex cfg st1"
  from createChoicesFor_result[OF t(1) fresh1, of rs1] obtain ds q rs2 where
    r: "createChoicesFor cfg st1 (Some t) rs1 = Inr (q, ?st2, rs2)"
    and p: "distinct ds" "set ds \<subseteq> {j. j < ?n \<and> j \<noteq> t}"
      "length ds = min (nat (selection cfg - 1)) (?n - 1)"
      "mset (choices q) = mset (answerAt cfg t # map (answerAt cfg) ds)"
      "correctIndex q = indexOf (choices q) (answerAt cfg t)"
      "word q = words cfg ! t"
    by blast
  let ?st3 = "?st2\<lparr>currentQuestion := Some (word q, t), correctAnswerIndex := correctIndex q\<rparr>"
  have res: "changeQuestion cfg st rs = Inr (q, ?st3, rs2)"
    by (simp add: changeQuestion_def c t(2) r)
  have ok2: "usedWordsOk cfg ?st2" using ok1 by (simp add: usedWordsOk_def other_buildIndex)
  have fresh2: "indexFresh cfg ?st2" using fresh1 by (simp add: indexFresh_buildIndex)
  have ok3: "usedWordsOk cfg ?st3" using ok2 by (simp add: usedWordsOk_def)
  have fresh3: "indexFresh cfg ?st3"
    using fresh2 by (subst indexFresh_cong[of ?st3 ?st2]) simp_all
  show ?thesis
    apply (rule exI[of _ t], rule exI[of _ ds], rule exI[of _ q], rule exI[of _ ?st3],
        rule exI[of _ rs2])
    using res t c p ok3 fresh3 by simp
qed

lemma others_exact:
  assumes t: "t < n" and d: "distinct ds" and s: "set ds \<subseteq> {j. j < n \<and> j \<noteq> t}"
    and l: "length ds = n - 1"
  shows "mset (t # ds) = mset [0 ..< n]"
proof -
  have fin: "finite {j. j < n \<and> j \<noteq> t}" by simp
  have c1: "card (set ds) = length ds" using d by (rule distinct_card)
  have "card (set ds) = card {j. j < n \<and> j \<noteq> t}"
    unfolding c1 l card_others[OF t] ..
  then have e: "set ds = {j. j < n \<and> j \<noteq> t}"
    by (rule card_subset_eq[OF fin s])
  have tn: "t \<notin> set ds" unfolding e by simp
  have "insert t {j. j < n \<and> j \<noteq> t} = {0 ..< n}" using t by auto
  then have st: "set (t # ds) = set [0 ..< n]" unfolding e[symmetric] by simp
  have dt: "distinct (t # ds)" using d tn by simp
  show ?thesis
    by (rule iffD1[OF set_eq_iff_mset_eq_distinct[OF dt distinct_upt] st])
qed

lemma map_answerAt_all:
  "map (answerAt cfg) [0 ..< length (words cfg)] = map (\<lambda>w. entryField w (mode cfg)) (words cfg)"
  by (rule nth_equalityI) (simp_all add: answerAt_def)

lemma count_list_map_zero: "\<forall>d \<in> set ds. f d \<noteq> x \<Longrightarrow> count_list (map f ds) x = 0"
  by (induction ds) auto

lemma count_list_mset: "mset xs = mset ys \<Longrightarrow> count_list xs x = count_list ys x"
  by (metis count_mset)

lemma questionOf_Inr: "questionOf (Inr (q, st, rs)) = Some q"
  by (simp add: questionOf_def)

text \<open>
  Claim C1, as amended. On a non-empty catalog, in a state whose \<^verbatim>\<open>usedWords\<close> and index
  are sound, \<^verbatim>\<open>changeQuestion\<close> returns a question for a word of the catalog, for every
  random source. Its choices contain the correct answer, \<^verbatim>\<open>correctIndex\<close> is the first
  position of the correct answer in the shuffled choices, and the correct answer occurs
  exactly once when no other catalog entry has the same answer text.
\<close>

theorem correct_answer_in_choices:
  assumes "words cfg \<noteq> []" and "usedWordsOk cfg st" and "indexFresh cfg st"
  shows "\<exists>t q. fst (chooseWordIndex cfg st rs) = Some t \<and> t < length (words cfg)
     \<and> questionOf (changeQuestion cfg st rs) = Some q
     \<and> word q = words cfg ! t
     \<and> entryField (word q) (mode cfg) \<in> set (choices q)
     \<and> 0 \<le> correctIndex q \<and> nat (correctIndex q) < length (choices q)
     \<and> choices q ! nat (correctIndex q) = entryField (word q) (mode cfg)
     \<and> (\<forall>k < nat (correctIndex q). choices q ! k \<noteq> entryField (word q) (mode cfg))
     \<and> ((\<forall>j < length (words cfg). j \<noteq> t \<longrightarrow>
            entryField (words cfg ! j) (mode cfg) \<noteq> entryField (word q) (mode cfg)) \<longrightarrow>
          count_list (choices q) (entryField (word q) (mode cfg)) = 1)"
proof -
  from changeQuestion_result[OF assms, of rs] obtain t ds q st' rs' where
    r: "changeQuestion cfg st rs = Inr (q, st', rs')"
    and t: "t < length (words cfg)" "fst (chooseWordIndex cfg st rs) = Some t"
    and ds: "set ds \<subseteq> {j. j < length (words cfg) \<and> j \<noteq> t}"
    and m: "mset (choices q) = mset (answerAt cfg t # map (answerAt cfg) ds)"
    and ci: "correctIndex q = indexOf (choices q) (answerAt cfg t)"
    and w: "word q = words cfg ! t"
    by blast
  let ?ca = "entryField (word q) (mode cfg)"
  have ca: "?ca = answerAt cfg t" by (simp add: w answerAt_def)
  have "set (choices q) = set (answerAt cfg t # map (answerAt cfg) ds)"
    using m by (metis set_mset_mset)
  then have mem: "?ca \<in> set (choices q)" by (simp add: ca)
  have ci': "correctIndex q = indexOf (choices q) ?ca" using ci ca by simp
  have first: "0 \<le> correctIndex q \<and> nat (correctIndex q) < length (choices q) \<and>
      choices q ! nat (correctIndex q) = ?ca \<and>
      (\<forall>k < nat (correctIndex q). choices q ! k \<noteq> ?ca)"
    unfolding ci' by (rule indexOf_first[OF mem])
  have uniq: "count_list (choices q) ?ca = 1"
    if u: "\<forall>j < length (words cfg). j \<noteq> t \<longrightarrow> entryField (words cfg ! j) (mode cfg) \<noteq> ?ca"
  proof -
    have "\<forall>d \<in> set ds. answerAt cfg d \<noteq> ?ca" using u ds by (auto simp: answerAt_def)
    then have "count_list (map (answerAt cfg) ds) ?ca = 0" by (rule count_list_map_zero)
    then have "count_list (answerAt cfg t # map (answerAt cfg) ds) ?ca = 1" by (simp add: ca)
    then show ?thesis using count_list_mset[OF m] by simp
  qed
  show ?thesis
    apply (rule exI[of _ t], rule exI[of _ q])
    using t r w mem first uniq by (simp add: questionOf_Inr)
qed

theorem correct_answer_in_choices_witness:
  "words threeWords \<noteq> [] \<and> usedWordsOk threeWords initialState \<and>
   indexFresh threeWords initialState \<and>
   questionOf (changeQuestion threeWords initialState []) =
     Some \<lparr>choices = [Some ''run'', Some ''dog'', Some ''cat''], correctIndex = 2,
           word = \<lparr>headword = ''cat'', meaning = ''neko'', hint = [],
                   partOfSpeech = ''noun''\<rparr>\<rparr>"
proof -
  have w: "words threeWords \<noteq> []" by (simp add: threeWords_def)
  have e: "questionOf (changeQuestion threeWords initialState []) =
     Some \<lparr>choices = [Some ''run'', Some ''dog'', Some ''cat''], correctIndex = 2,
           word = \<lparr>headword = ''cat'', meaning = ''neko'', hint = [],
                   partOfSpeech = ''noun''\<rparr>\<rparr>"
    by code_simp
  show ?thesis
    using correct_answer_in_choices[OF w usedWordsOk_initial indexFresh_initial, of "[]"]
      w usedWordsOk_initial[of threeWords] indexFresh_initial[of threeWords] e
    by simp
qed

text \<open>
  Two entries share the answer \<^verbatim>\<open>large\<close>: the choices hold the correct answer twice.
\<close>

theorem correct_answer_twice_counterexample:
  "questionOf (changeQuestion twinWords initialState []) =
     Some \<lparr>choices = [Some ''large'', Some ''large''], correctIndex = 0,
           word = \<lparr>headword = ''big'', meaning = ''large'', hint = [],
                   partOfSpeech = ''adjective''\<rparr>\<rparr>
   \<and> count_list [Some ''large'', Some ''large''] (Some ''large'') = 2"
  by code_simp

text \<open>
  Claim C2. When the catalog has at least \<^verbatim>\<open>cfg.selection\<close> entries (and
  \<^verbatim>\<open>cfg.selection\<close> is at least 1), every question \<^verbatim>\<open>changeQuestion\<close> returns has
  exactly \<^verbatim>\<open>cfg.selection\<close> choices, whatever the candidate pool and the similarity filter
  leave: the scan of the full catalog tops the distractors up. The choices are the answer
  of the target and the answers of distractor entries, none of which is the target or
  taken twice.
\<close>

theorem full_choice_set:
  assumes "words cfg \<noteq> []" and "usedWordsOk cfg st" and "indexFresh cfg st"
    and "1 \<le> selection cfg" and "selection cfg \<le> int (length (words cfg))"
  shows "\<exists>q t ds. questionOf (changeQuestion cfg st rs) = Some q
     \<and> int (length (choices q)) = selection cfg
     \<and> t < length (words cfg) \<and> word q = words cfg ! t
     \<and> distinct ds \<and> set ds \<subseteq> {j. j < length (words cfg) \<and> j \<noteq> t}
     \<and> mset (choices q) = mset (answerAt cfg t # map (answerAt cfg) ds)"
proof -
  from changeQuestion_result[OF assms(1-3), of rs] obtain t ds q st' rs' where
    r: "changeQuestion cfg st rs = Inr (q, st', rs')"
    and t: "t < length (words cfg)" "word q = words cfg ! t"
    and d: "distinct ds" "set ds \<subseteq> {j. j < length (words cfg) \<and> j \<noteq> t}"
    and l: "length ds = min (nat (selection cfg - 1)) (length (words cfg) - 1)"
    and m: "mset (choices q) = mset (answerAt cfg t # map (answerAt cfg) ds)"
    by blast
  have "length (choices q) = length (answerAt cfg t # map (answerAt cfg) ds)"
    using m by (metis size_mset)
  then have n: "int (length (choices q)) = selection cfg" using l assms(4,5) by simp
  have q: "questionOf (changeQuestion cfg st rs) = Some q" using r by (simp add: questionOf_Inr)
  from q n t d m show ?thesis by blast
qed

theorem full_choice_set_witness:
  "words (threeWords\<lparr>selection := 2\<rparr>) \<noteq> [] \<and>
   usedWordsOk (threeWords\<lparr>selection := 2\<rparr>) initialState \<and>
   indexFresh (threeWords\<lparr>selection := 2\<rparr>) initialState \<and>
   1 \<le> selection (threeWords\<lparr>selection := 2\<rparr>) \<and>
   selection (threeWords\<lparr>selection := 2\<rparr>) \<le> int (length (words (threeWords\<lparr>selection := 2\<rparr>))) \<and>
   map_option choices (questionOf (changeQuestion (threeWords\<lparr>selection := 2\<rparr>) initialState [1, 2, 3])) =
     Some [Some ''dog'', Some ''run'']"
proof -
  let ?cfg = "threeWords\<lparr>selection := 2\<rparr>"
  have w: "words ?cfg \<noteq> []" by (simp add: threeWords_def)
  have s1: "1 \<le> selection ?cfg" by simp
  have s2: "selection ?cfg \<le> int (length (words ?cfg))" by (simp add: threeWords_def)
  have e: "map_option choices (questionOf (changeQuestion ?cfg initialState [1, 2, 3])) =
     Some [Some ''dog'', Some ''run'']"
    by code_simp
  show ?thesis
    using full_choice_set[OF w usedWordsOk_initial indexFresh_initial s1 s2, of "[1, 2, 3]"]
      w usedWordsOk_initial[of ?cfg] indexFresh_initial[of ?cfg] s1 s2 e
    by simp
qed

text \<open>
  Claim C6, as amended. When the catalog is non-empty and smaller than
  \<^verbatim>\<open>cfg.selection\<close>, the choices are the answers of all catalog entries, each entry once:
  as many choices as entries, without duplicates when the catalog's answers are pairwise
  different, and the correct answer alone when the catalog has one word.
\<close>

theorem small_catalog_choices:
  assumes "words cfg \<noteq> []" and "usedWordsOk cfg st" and "indexFresh cfg st"
    and "int (length (words cfg)) < selection cfg"
  shows "\<exists>q. questionOf (changeQuestion cfg st rs) = Some q
     \<and> length (choices q) = length (words cfg)
     \<and> mset (choices q) = mset (map (\<lambda>w. entryField w (mode cfg)) (words cfg))
     \<and> (distinct (map (\<lambda>w. entryField w (mode cfg)) (words cfg)) \<longrightarrow> distinct (choices q))
     \<and> (length (words cfg) = 1 \<longrightarrow> choices q = [entryField (word q) (mode cfg)])"
proof -
  from changeQuestion_result[OF assms(1-3), of rs] obtain t ds q st' rs' where
    r: "changeQuestion cfg st rs = Inr (q, st', rs')"
    and t: "t < length (words cfg)"
    and d: "distinct ds" and s: "set ds \<subseteq> {j. j < length (words cfg) \<and> j \<noteq> t}"
    and l: "length ds = min (nat (selection cfg - 1)) (length (words cfg) - 1)"
    and m: "mset (choices q) = mset (answerAt cfg t # map (answerAt cfg) ds)"
    and w: "word q = words cfg ! t"
    by blast
  let ?all = "map (\<lambda>w. entryField w (mode cfg)) (words cfg)"
  have l': "length ds = length (words cfg) - 1" using l assms(4) by simp
  have "mset (t # ds) = mset [0 ..< length (words cfg)]" by (rule others_exact[OF t d s l'])
  then have "mset (map (answerAt cfg) (t # ds)) = mset (map (answerAt cfg) [0 ..< length (words cfg)])"
    by (metis mset_map)
  then have m': "mset (choices q) = mset ?all" using m by (simp add: map_answerAt_all)
  have len: "length (choices q) = length (words cfg)" using m' by (metis size_mset length_map)
  have dist: "distinct (choices q)" if "distinct ?all"
    using that m' by (metis mset_eq_imp_distinct_iff)
  have one: "choices q = [entryField (word q) (mode cfg)]" if "length (words cfg) = 1"
  proof -
    have "ds = []" using l' that by simp
    then have "mset (choices q) = mset [answerAt cfg t]" using m by simp
    then show ?thesis by (simp add: w answerAt_def)
  qed
  show ?thesis using r m' len dist one by (simp add: questionOf_Inr)
qed

theorem small_catalog_choices_witness:
  "words threeWords \<noteq> [] \<and> usedWordsOk threeWords initialState \<and>
   indexFresh threeWords initialState \<and>
   int (length (words threeWords)) < selection threeWords \<and>
   map_option choices (questionOf (changeQuestion threeWords initialState [2, 0, 1])) =
     Some [Some ''cat'', Some ''run'', Some ''dog'']"
proof -
  have w: "words threeWords \<noteq> []" by (simp add: threeWords_def)
  have s: "int (length (words threeWords)) < selection threeWords" by (simp add: threeWords_def)
  have e: "map_option choices (questionOf (changeQuestion threeWords initialState [2, 0, 1])) =
     Some [Some ''cat'', Some ''run'', Some ''dog'']"
    by code_simp
  show ?thesis
    using small_catalog_choices[OF w usedWordsOk_initial indexFresh_initial s, of "[2, 0, 1]"]
      w usedWordsOk_initial[of threeWords] indexFresh_initial[of threeWords] s e
    by simp
qed

text \<open>
  Two entries share the headword \<^verbatim>\<open>set\<close>: the three choices hold it twice.
\<close>

theorem duplicate_choices_counterexample:
  "questionOf (changeQuestion setWords initialState []) =
     Some \<lparr>choices = [Some ''set'', Some ''run'', Some ''set''], correctIndex = 0,
           word = \<lparr>headword = ''set'', meaning = ''to put'', hint = [],
                   partOfSpeech = ''verb''\<rparr>\<rparr>
   \<and> int (length (words setWords)) < selection setWords
   \<and> \<not> distinct [Some ''set'', Some ''run'', Some ''set'']"
  by code_simp

subsection \<open>The similarity filter\<close>

text \<open>
  Claim C5, as amended. With the similarity filter enabled, \<^verbatim>\<open>createChoicesFor\<close> returns a
  question for every target of the catalog. The candidates that survive the filter are
  exactly the candidates that are not too similar to the target (the survivors \<open>sh\<close> are a
  permutation of them): a candidate is dropped if and only if its answer and the target's,
  compared without regard to case, share a contiguous substring of length at least
  \<open>max 3 (targetLength div 2)\<close>. The distractors are the first \<^verbatim>\<open>cfg.selection - 1\<close> of the
  survivors followed by the other entries of the catalog, so a dropped candidate is offered
  only through the top-up: when at least \<^verbatim>\<open>cfg.selection - 1\<close> candidates survive, no
  distractor is too similar.
\<close>

theorem similarity_filter:
  assumes "t < length (words cfg)" and "indexFresh cfg st" and "avoidSimilarDistractors cfg"
  shows "\<exists>q sh. questionOf (createChoicesFor cfg st (Some t) rs) = Some q
     \<and> mset sh = mset (filter (\<lambda>i. \<not> tooSimilar cfg t i) (candidateList cfg st t rs))
     \<and> mset (choices q) =
         mset (answerAt cfg t # map (answerAt cfg)
                (take (nat (selection cfg - 1))
                   (sh @ filter (\<lambda>idx. idx \<noteq> t \<and> idx \<notin> set sh) [0 ..< length (words cfg)])))
     \<and> (selection cfg - 1 \<le> int (length sh) \<longrightarrow>
          (\<exists>ds. (\<forall>d \<in> set ds. d \<in> set (candidateList cfg st t rs) \<and> \<not> tooSimilar cfg t d)
             \<and> mset (choices q) = mset (answerAt cfg t # map (answerAt cfg) ds)))"
proof -
  let ?k = "nat (selection cfg - 1)"
  let ?kept = "filter (\<lambda>i. \<not> tooSimilar cfg t i) (candidateList cfg st t rs)"
  from createChoicesFor_stages[OF assms(1,2), of rs] obtain sh q rs' where
    r: "createChoicesFor cfg st (Some t) rs =
         Inr (q, (if indexBuilt st then st else buildIndex cfg st), rs')"
    and m0: "mset sh =
         mset (if avoidSimilarDistractors cfg
               then filter (\<lambda>i. keepCandidate cfg (toLowerCase (toStr (answerAt cfg t)))
                              (words cfg ! i)) (candidateList cfg st t rs)
               else candidateList cfg st t rs)"
    and m: "mset (choices q) =
         mset (answerAt cfg t # map (answerAt cfg)
                (take ?k (sh @ filter (\<lambda>idx. idx \<noteq> t \<and> idx \<notin> set sh)
                   [0 ..< length (words cfg)])))"
    by blast
  have msh: "mset sh = mset ?kept" using m0 assms(3) by (simp add: keepCandidate_spec)
  then have ssh: "set sh = set ?kept" by (metis set_mset_mset)
  have q: "questionOf (createChoicesFor cfg st (Some t) rs) = Some q"
    by (simp add: r questionOf_Inr)
  have enough: "\<exists>ds. (\<forall>d \<in> set ds. d \<in> set (candidateList cfg st t rs) \<and> \<not> tooSimilar cfg t d)
             \<and> mset (choices q) = mset (answerAt cfg t # map (answerAt cfg) ds)"
    if k: "selection cfg - 1 \<le> int (length sh)"
  proof -
    have "?k \<le> length sh" using k by simp
    then have e: "take ?k (sh @ filter (\<lambda>idx. idx \<noteq> t \<and> idx \<notin> set sh)
        [0 ..< length (words cfg)]) = take ?k sh" by simp
    have "set (take ?k sh) \<subseteq> set ?kept" using set_take_subset[of ?k sh] ssh by blast
    then have "\<forall>d \<in> set (take ?k sh).
        d \<in> set (candidateList cfg st t rs) \<and> \<not> tooSimilar cfg t d" by auto
    moreover have "mset (choices q) = mset (answerAt cfg t # map (answerAt cfg) (take ?k sh))"
      using m unfolding e .
    ultimately show ?thesis by blast
  qed
  from q msh m enough show ?thesis by blast
qed

theorem similarity_filter_witness:
  "0 < length (words fiveWords) \<and> indexFresh fiveWords initialState \<and>
   avoidSimilarDistractors fiveWords \<and>
   toLowerCase ''INSISTING'' = ''insisting'' \<and>
   lcsSpec ''insist'' ''insisting'' = 6 \<and> lcsSpec ''insist'' ''INSISTING'' = 0 \<and>
   tooSimilar fiveWords 0 1 \<and>
   candidateList fiveWords initialState 0 [] = [1, 2, 3, 4] \<and>
   questionOf (createChoicesFor fiveWords initialState (Some 0) []) =
     Some \<lparr>choices = [Some ''refuse'', Some ''accept'', Some ''demand'', Some ''insist''],
           correctIndex = 3,
           word = \<lparr>headword = ''insist'', meaning = ''to demand'', hint = [],
                   partOfSpeech = ''verb''\<rparr>\<rparr>"
proof -
  have l: "0 < length (words fiveWords)" by (simp add: fiveWords_def)
  have a: "avoidSimilarDistractors fiveWords" by (simp add: fiveWords_def)
  have lo: "toLowerCase ''INSISTING'' = ''insisting''" by code_simp
  have l1: "lcsSpec ''insist'' ''insisting'' = 6"
    unfolding lcs_refines[symmetric] by code_simp
  have l2: "lcsSpec ''insist'' ''INSISTING'' = 0"
    unfolding lcs_refines[symmetric] by code_simp
  have k: "\<not> keepCandidate fiveWords (toLowerCase (toStr (answerAt fiveWords 0)))
      (words fiveWords ! 1)"
    by code_simp
  have ts: "tooSimilar fiveWords 0 1" using k unfolding keepCandidate_spec by simp
  have c: "candidateList fiveWords initialState 0 [] = [1, 2, 3, 4]" by code_simp
  have e: "questionOf (createChoicesFor fiveWords initialState (Some 0) []) =
     Some \<lparr>choices = [Some ''refuse'', Some ''accept'', Some ''demand'', Some ''insist''],
           correctIndex = 3,
           word = \<lparr>headword = ''insist'', meaning = ''to demand'', hint = [],
                   partOfSpeech = ''verb''\<rparr>\<rparr>"
    by code_simp
  show ?thesis
    using similarity_filter[OF l indexFresh_initial a, of "[]"] l indexFresh_initial[of fiveWords]
      a lo l1 l2 ts c e
    by simp
qed

text \<open>
  In a catalog of three words the filter drops \<^verbatim>\<open>INSISTING\<close> for the target \<^verbatim>\<open>insist\<close>
  (their common substring has length 6), and the top-up from the full catalog offers it
  all the same.
\<close>

theorem similar_choice_counterexample:
  "avoidSimilarDistractors insistWords \<and>
   longestCommonSubstringLength (toLowerCase ''insist'') (toLowerCase ''INSISTING'') = 6 \<and>
   questionOf (createChoicesFor insistWords initialState (Some 0) []) =
     Some \<lparr>choices = [Some ''demand'', Some ''INSISTING'', Some ''insist''], correctIndex = 2,
           word = \<lparr>headword = ''insist'', meaning = ''to demand'', hint = [],
                   partOfSpeech = ''verb''\<rparr>\<rparr>"
  by code_simp

subsection \<open>Persistence\<close>

lemma emptyObject_accepts: "slotAccepts (emptyObject key)"
  by (simp add: emptyObject_def slotAccepts_def)

lemma bumpCounter_accepts:
  assumes "attempts c \<noteq> FThrows" and "correctN c \<noteq> FThrows" and "hintUsedN c \<noteq> FThrows"
  shows "\<exists>c'. bumpCounter r c = Inr c' \<and> attempts c' \<noteq> FThrows \<and> correctN c' \<noteq> FThrows \<and>
           hintUsedN c' \<noteq> FThrows"
  using assms
  by (cases "attempts c"; cases "correctN c"; cases "hintUsedN c")
     (simp_all add: bumpCounter_def plusOne_def)

lemma perWordStep_accepts:
  assumes "\<forall>key. slotAccepts (pw key)"
  shows "\<exists>pw'. perWordStep r pw = Inr pw' \<and> (\<forall>key. slotAccepts (pw' key))"
proof (cases "pw (resultKey r)")
  case Missing
  obtain c' where c: "bumpCounter r \<lparr>attempts = FNum 0, correctN = FNum 0, hintUsedN = FNum 0\<rparr> = Inr c'"
    "attempts c' \<noteq> FThrows" "correctN c' \<noteq> FThrows" "hintUsedN c' \<noteq> FThrows"
    using bumpCounter_accepts[of "\<lparr>attempts = FNum 0, correctN = FNum 0, hintUsedN = FNum 0\<rparr>" r]
    by auto
  then show ?thesis using Missing assms
    by (auto simp: perWordStep_def ensureCounter_def slotAccepts_def Let_def)
next
  case (Rejects e)
  then show ?thesis using assms[rule_format, of "resultKey r"] by (simp add: slotAccepts_def)
next
  case (Counter c0)
  then have "attempts c0 \<noteq> FThrows" "correctN c0 \<noteq> FThrows" "hintUsedN c0 \<noteq> FThrows"
    using assms[rule_format, of "resultKey r"] by (simp_all add: slotAccepts_def)
  from bumpCounter_accepts[OF this, of r] obtain c' where c: "bumpCounter r c0 = Inr c'"
    "attempts c' \<noteq> FThrows" "correctN c' \<noteq> FThrows" "hintUsedN c' \<noteq> FThrows" by auto
  then show ?thesis using Counter assms
    by (auto simp: perWordStep_def ensureCounter_def slotAccepts_def Let_def)
next
  case PrimitiveValue
  then show ?thesis using assms[rule_format, of "resultKey r"] by (simp add: slotAccepts_def)
next
  case Builtin
  then show ?thesis using assms by (simp add: perWordStep_def ensureCounter_def Let_def)
qed

lemma perWordLoop_accepts:
  "\<forall>key. slotAccepts (pw key) \<Longrightarrow>
   \<exists>pw'. perWordLoop results pw = Inr pw' \<and> (\<forall>key. slotAccepts (pw' key))"
proof (induction results arbitrary: pw)
  case Nil
  then show ?case by simp
next
  case (Cons r results)
  from perWordStep_accepts[OF Cons.prems, of r] obtain pw1 where
    s: "perWordStep r pw = Inr pw1" and a: "\<forall>key. slotAccepts (pw1 key)" by blast
  from Cons.IH[OF a] show ?case by (simp add: s)
qed

lemma loadStats_access: "fst (loadStats env) = Inr v \<Longrightarrow> storageAccess (snd (loadStats env)) \<noteq> AccessThrows"
  by (cases "storageAccess env")
     (auto simp: loadStats_def removeItemQuietly_def split: if_splits option.splits rawItem.splits)

lemma saveStats_returns: "storageAccess env \<noteq> AccessThrows \<Longrightarrow> \<exists>env'. saveStats env s = Inr env'"
  by (cases "storageAccess env") (auto simp: saveStats_def)

lemma updateStats_returns:
  assumes l: "fst (loadStats env) = Inr (StatsObject st)"
    and s: "sessions st \<noteq> NotAnArray"
    and p: "results = [] \<or> perWordAccepts (perWord st)"
    and h: "\<forall>f. highScore st \<noteq> OtherHighScore f"
  shows "\<exists>ss hs pw.
       fst (updateStatsWithSession env now results qc) =
         Inr \<lparr>sessions = Sessions ss, perWord = PerWord pw, highScore = hs\<rparr>
     \<and> pushSession (sessions st)
         \<lparr>ts = now, score = int (length (filter correct results)), questionCount = qc\<rparr> = Inr ss
     \<and> raiseHighScore (highScore st) (int (length (filter correct results))) = Inr hs"
proof -
  let ?c = "int (length (filter correct results))"
  let ?sn = "\<lparr>ts = now, score = ?c, questionCount = qc\<rparr>"
  let ?pw0 = "case perWord st of NoPerWord \<Rightarrow> emptyObject | PerWord f \<Rightarrow> f"
  obtain env1 where le: "loadStats env = (Inr (StatsObject st), env1)"
    using l by (cases "loadStats env") auto
  have acc: "storageAccess env1 \<noteq> AccessThrows" using loadStats_access[OF l] le by simp
  obtain ss where ss: "pushSession (sessions st) ?sn = Inr ss"
    using s by (cases "sessions st") (auto simp: pushSession_def)
  obtain hs where hs: "raiseHighScore (highScore st) ?c = Inr hs"
    using h by (cases "highScore st") (auto simp: raiseHighScore_def)
  have "\<exists>pw. perWordLoop results ?pw0 = Inr pw"
  proof (cases "results = []")
    case True
    then show ?thesis by simp
  next
    case False
    then have "\<forall>key. slotAccepts (?pw0 key)"
      using p by (cases "perWord st") (auto simp: perWordAccepts_def emptyObject_accepts)
    from perWordLoop_accepts[OF this, of results] show ?thesis by blast
  qed
  then obtain pw where pw: "perWordLoop results ?pw0 = Inr pw" by blast
  obtain env2 where sv:
    "saveStats env1 \<lparr>sessions = Sessions ss, perWord = PerWord pw, highScore = hs\<rparr> = Inr env2"
    using saveStats_returns[OF acc] by blast
  have "fst (updateStatsWithSession env now results qc) =
         Inr \<lparr>sessions = Sessions ss, perWord = PerWord pw, highScore = hs\<rparr>"
    by (simp add: updateStatsWithSession_def le Let_def ss hs pw sv)
  then show ?thesis using ss hs by blast
qed

text \<open>
  Claim C8, as amended. When the stored stats are a stats object of the shape the module
  writes (\<^verbatim>\<open>sessions\<close> absent or an array, \<^verbatim>\<open>highScore\<close> absent or an integer, and, unless
  the result list is empty, no entry of \<^verbatim>\<open>perWord\<close> that makes the loop throw),
  \<^verbatim>\<open>updateStatsWithSession\<close> appends exactly one session record, with the number of correct
  results as its score. With an empty result
  list that score is 0, a stored high score that is not negative stays as it is, and a
  missing one becomes 0. In general a stored high score changes only to the session's
  correct count, and only when that count exceeds it.
\<close>

theorem updateStats_highScore:
  assumes "fst (loadStats env) = Inr (StatsObject st)"
    and "sessions st \<noteq> NotAnArray"
    and "results = [] \<or> perWordAccepts (perWord st)"
    and "\<forall>f. highScore st \<noteq> OtherHighScore f"
  shows "\<exists>s. fst (updateStatsWithSession env now results qc) = Inr s
     \<and> sessions s =
         Sessions ((case sessions st of Sessions xs \<Rightarrow> xs | _ \<Rightarrow> []) @
           [SessionRecord
              \<lparr>ts = now, score = int (length (filter correct results)), questionCount = qc\<rparr>])
     \<and> (results = [] \<longrightarrow>
          (\<forall>h. highScore st = HighScore h \<and> 0 \<le> h \<longrightarrow> highScore s = HighScore h)
          \<and> (highScore st = NoHighScore \<longrightarrow> highScore s = HighScore 0))
     \<and> (\<forall>h. highScore st = HighScore h \<and> highScore s \<noteq> HighScore h \<longrightarrow>
            highScore s = HighScore (int (length (filter correct results))) \<and>
            h < int (length (filter correct results)))"
proof -
  from updateStats_returns[OF assms, of now qc] obtain ss hs pw where
    r: "fst (updateStatsWithSession env now results qc) =
         Inr \<lparr>sessions = Sessions ss, perWord = PerWord pw, highScore = hs\<rparr>"
    and ss: "pushSession (sessions st)
         \<lparr>ts = now, score = int (length (filter correct results)), questionCount = qc\<rparr> = Inr ss"
    and hs: "raiseHighScore (highScore st) (int (length (filter correct results))) = Inr hs"
    by blast
  show ?thesis
    apply (rule exI[of _ "\<lparr>sessions = Sessions ss, perWord = PerWord pw, highScore = hs\<rparr>"])
    using r ss hs assms(2,4)
    by (cases "sessions st"; cases "highScore st")
       (auto simp: pushSession_def raiseHighScore_def split: if_splits)
qed

theorem updateStats_highScore_witness:
  "fst (loadStats (scoreStore 2)) = Inr (StatsObject (scoreStats 2)) \<and>
   sessions (scoreStats 2) \<noteq> NotAnArray \<and> perWordAccepts (perWord (scoreStats 2)) \<and>
   highScore (scoreStats 2) = HighScore 2 \<and>
   map_sum id highScore (fst (updateStatsWithSession (scoreStore 2) 7 [] 5)) =
     Inr (HighScore 2) \<and>
   map_sum id sessions (fst (updateStatsWithSession (scoreStore 2) 7 [] 5)) =
     Inr (Sessions [SessionRecord \<lparr>ts = 7, score = 0, questionCount = 5\<rparr>])"
proof -
  have l: "fst (loadStats (scoreStore 2)) = Inr (StatsObject (scoreStats 2))"
    by (simp add: loadStats_def scoreStore_def)
  have s: "sessions (scoreStats 2) \<noteq> NotAnArray" by (simp add: scoreStats_def)
  have p: "perWordAccepts (perWord (scoreStats 2))"
    by (simp add: scoreStats_def perWordAccepts_def emptyObject_accepts)
  then have p': "[] = ([] :: resultItem list) \<or> perWordAccepts (perWord (scoreStats 2))" ..
  have h: "\<forall>f. highScore (scoreStats 2) \<noteq> OtherHighScore f" by (simp add: scoreStats_def)
  have h2: "highScore (scoreStats 2) = HighScore 2" by (simp add: scoreStats_def)
  show ?thesis
    using updateStats_highScore[OF l s p' h, of 7 5] l s p h2
    by (auto simp: scoreStats_def)
qed

text \<open>
  With the stored high score \<open>-3\<close> and an empty result list, the high score becomes \<open>0\<close>:
  the claim as stated (unchanged for any stored value) fails there.
\<close>

theorem updateStats_negative_highScore_counterexample:
  "fst (loadStats (scoreStore (- 3))) = Inr (StatsObject (scoreStats (- 3))) \<and>
   highScore (scoreStats (- 3)) = HighScore (- 3) \<and>
   map_sum id highScore (fst (updateStatsWithSession (scoreStore (- 3)) 7 [] 5)) =
     Inr (HighScore 0)"
  by (simp add: updateStatsWithSession_def scoreStore_def scoreStats_def loadStats_def
       pushSession_def raiseHighScore_def saveStats_def Let_def)

text \<open>
  Claim C9, as amended. When the store is absent, \<^verbatim>\<open>getItem\<close> throws or the stored text
  does not parse, \<^verbatim>\<open>loadStats\<close> returns the empty stats. When \<^verbatim>\<open>setItem\<close> throws,
  \<^verbatim>\<open>saveStats\<close> leaves the store as it is and returns. In those cases, and whenever a
  well-shaped stats object is stored, \<^verbatim>\<open>updateStatsWithSession\<close> returns the stats with the
  session appended, whichever of the store's operations throw. It can raise an error all
  the same (when reading \<^verbatim>\<open>window.localStorage\<close> itself throws, or the stored text parses
  to something that is not a well-shaped stats object); \<^verbatim>\<open>showResults\<close> catches every such
  error and goes on with no stats, so the failure does not reach the quiz.
\<close>

theorem persistence_failures_swallowed:
  "(storageAccess env \<noteq> AccessThrows \<and>
      (storageAccess env = NoStorage \<or> getThrows env \<or> item env = Some Corrupt) \<longrightarrow>
      fst (loadStats env) = Inr (StatsObject emptyStats))
   \<and> (storageAccess env \<noteq> AccessThrows \<and> setThrows env \<longrightarrow> saveStats env s = Inr env)
   \<and> (storageAccess env \<noteq> AccessThrows \<and>
        (storageAccess env = NoStorage \<or> getThrows env \<or> item env = None \<or>
         item env = Some EmptyText \<or> item env = Some Corrupt) \<longrightarrow>
        (\<exists>s'. fst (updateStatsWithSession env now results qc) = Inr s' \<and>
              sessions s' = Sessions [SessionRecord \<lparr>ts = now,
                 score = int (length (filter correct results)), questionCount = qc\<rparr>]))
   \<and> (fst (loadStats env) = Inr (StatsObject st) \<and> sessions st \<noteq> NotAnArray \<and>
        (results = [] \<or> perWordAccepts (perWord st)) \<and>
        (\<forall>f. highScore st \<noteq> OtherHighScore f) \<longrightarrow>
        (\<exists>s'. fst (updateStatsWithSession env now results qc) = Inr s'))
   \<and> ((\<exists>e. fst (updateStatsWithSession env now results qc) = Inl e) \<longrightarrow>
        fst (showResultsStats env now results qc) = None)"
proof -
  have a: "fst (loadStats env) = Inr (StatsObject emptyStats)"
    if "storageAccess env \<noteq> AccessThrows"
      "storageAccess env = NoStorage \<or> getThrows env \<or> item env = None \<or>
         item env = Some EmptyText \<or> item env = Some Corrupt"
    using that by (cases "storageAccess env") (auto simp: loadStats_def)
  have b: "saveStats env s = Inr env" if "storageAccess env \<noteq> AccessThrows" "setThrows env"
    using that by (cases "storageAccess env") (auto simp: saveStats_def)
  have c: "\<exists>s'. fst (updateStatsWithSession env now results qc) = Inr s' \<and>
              sessions s' = Sessions [SessionRecord \<lparr>ts = now,
                 score = int (length (filter correct results)), questionCount = qc\<rparr>]"
    if "storageAccess env \<noteq> AccessThrows"
      "storageAccess env = NoStorage \<or> getThrows env \<or> item env = None \<or>
         item env = Some EmptyText \<or> item env = Some Corrupt"
  proof -
    have l: "fst (loadStats env) = Inr (StatsObject emptyStats)" using a that by blast
    have "\<exists>ss hs pw.
       fst (updateStatsWithSession env now results qc) =
         Inr \<lparr>sessions = Sessions ss, perWord = PerWord pw, highScore = hs\<rparr>
     \<and> pushSession (sessions emptyStats)
         \<lparr>ts = now, score = int (length (filter correct results)), questionCount = qc\<rparr> = Inr ss
     \<and> raiseHighScore (highScore emptyStats) (int (length (filter correct results))) = Inr hs"
      by (rule updateStats_returns[OF l])
         (simp_all add: emptyStats_def perWordAccepts_def emptyObject_accepts)
    then show ?thesis by (auto simp: emptyStats_def pushSession_def)
  qed
  have d: "\<exists>s'. fst (updateStatsWithSession env now results qc) = Inr s'"
    if "fst (loadStats env) = Inr (StatsObject st)" "sessions st \<noteq> NotAnArray"
      "results = [] \<or> perWordAccepts (perWord st)" "\<forall>f. highScore st \<noteq> OtherHighScore f"
    using updateStats_returns[OF that, of now qc] by blast
  have e: "fst (showResultsStats env now results qc) = None"
    if "\<exists>e. fst (updateStatsWithSession env now results qc) = Inl e"
    using that by (cases "updateStatsWithSession env now results qc")
      (auto simp: showResultsStats_def)
  from a b c d e show ?thesis by blast
qed

theorem persistence_failures_swallowed_witness:
  "storageAccess brokenStore \<noteq> AccessThrows \<and>
   getThrows brokenStore \<and> setThrows brokenStore \<and> item brokenStore = Some Corrupt \<and>
   fst (loadStats brokenStore) = Inr (StatsObject emptyStats) \<and>
   saveStats brokenStore emptyStats = Inr brokenStore \<and>
   map_sum id sessions (fst (updateStatsWithSession brokenStore 7 [] 5)) =
     Inr (Sessions [SessionRecord \<lparr>ts = 7, score = 0, questionCount = 5\<rparr>]) \<and>
   fst (updateStatsWithSession blockedStore 7 [] 5) = Inl SecurityError \<and>
   fst (showResultsStats blockedStore 7 [] 5) = None"
proof -
  have b: "storageAccess brokenStore \<noteq> AccessThrows" "getThrows brokenStore"
    "setThrows brokenStore" "item brokenStore = Some Corrupt"
    by (simp_all add: brokenStore_def)
  have u: "fst (updateStatsWithSession blockedStore 7 [] 5) = Inl SecurityError"
    by (simp add: updateStatsWithSession_def loadStats_def blockedStore_def)
  show ?thesis
    using persistence_failures_swallowed[of brokenStore emptyStats 7 "[]" 5 emptyStats] b
      persistence_failures_swallowed[of blockedStore emptyStats 7 "[]" 5 emptyStats] u
    by auto
qed

text \<open>
  Three store behaviours on which \<^verbatim>\<open>updateStatsWithSession\<close> raises an error instead of
  returning stats: the page may not use storage, so that the guard before the \<^verbatim>\<open>try\<close>
  throws; the store holds the text \<^verbatim>\<open>null\<close>, which parses; the store holds the text
  \<^verbatim>\<open>{"sessions":5}\<close>, and \<^verbatim>\<open>push\<close> is not a function of 5.
\<close>

theorem updateStats_raises_counterexample:
  "fst (updateStatsWithSession blockedStore 7 [] 5) = Inl SecurityError \<and>
   fst (updateStatsWithSession nullStore 7 [] 5) = Inl TypeError \<and>
   fst (updateStatsWithSession wrongShapeStore 7 [] 5) = Inl TypeError"
  by (simp add: updateStatsWithSession_def loadStats_def blockedStore_def nullStore_def
       wrongShapeStore_def pushSession_def)

end
